theory Spec2Isabelle
  imports Complex_Main
begin

unbundle bit_operations_syntax

section \<open>Python values, errors and results\<close>

text \<open>
  The exceptions the generators and the analyzer can raise.  \<open>StopIteration\<close> is not
  among them: it is the normal end of a sequence and has its own constructor below.
\<close>

datatype error = TypeError | ValueError | KeyError | IndexError | ZeroDivisionError

text \<open>
  Dynamically typed arguments, for the constructors that test \<open>isinstance\<close>.  A Python
  \<open>bool\<close> is an \<open>int\<close> (0 or 1) and is represented as such.
\<close>

datatype pyval = PyInt int | PyStr string | PyNone | PyList "pyval list"

text \<open>
  One call of \<open>__next__\<close>: a value is returned, \<open>StopIteration\<close> is raised, or another
  exception is raised.  Every case carries the object as the call leaves it, because the
  methods mutate the object before they raise.
\<close>

datatype ('v, 's) step = Emit 'v 's | StopIteration 's | Raise error 's

text \<open>A method that returns nothing: it finishes, or raises and leaves the object behind.\<close>

datatype 's outcome = Done 's | Failed error 's

section \<open>Strings of digits\<close>

definition digit_char :: "nat \<Rightarrow> char" where
  "digit_char d = ''0123456789'' ! d"

definition is_digit :: "char \<Rightarrow> bool" where
  "is_digit c = (c \<in> set ''0123456789'')"

definition digit_val :: "char \<Rightarrow> nat" where
  "digit_val c = of_char c - 48"

text \<open>\<open>str(n)\<close> for \<open>n \<ge> 0\<close>.\<close>

fun nat_digits :: "nat \<Rightarrow> string" where
  "nat_digits n = (if n < 10 then [digit_char n]
                   else nat_digits (n div 10) @ [digit_char (n mod 10)])"

declare nat_digits.simps [simp del]

text \<open>\<open>str(i)\<close> of an integer.\<close>

definition py_str :: "int \<Rightarrow> string" where
  "py_str i = (if i < 0 then CHR ''-'' # nat_digits (nat (- i)) else nat_digits (nat i))"

text \<open>\<open>s.zfill(width)\<close>: zeros are put after a leading sign; a longer string is kept.\<close>

definition zfill :: "string \<Rightarrow> int \<Rightarrow> string" where
  "zfill s width =
     (let pad = replicate (nat (width - int (length s))) (CHR ''0'')
      in case s of
           [] \<Rightarrow> pad
         | c # r \<Rightarrow> if c = CHR ''+'' \<or> c = CHR ''-'' then c # pad @ r else pad @ s)"

text \<open>\<open>s[a:b]\<close>: negative bounds count from the end, and both bounds are clamped.\<close>

definition py_slice :: "'a list \<Rightarrow> int \<Rightarrow> int \<Rightarrow> 'a list" where
  "py_slice s a b =
     (let n = int (length s);
          lo = (if a < 0 then max 0 (n + a) else min a n);
          hi = (if b < 0 then max 0 (n + b) else min b n)
      in take (nat (hi - lo)) (drop (nat lo) s))"

text \<open>\<open>xs[i]\<close>: a negative index counts from the end; out of range raises.\<close>

definition py_index :: "'a list \<Rightarrow> int \<Rightarrow> error + 'a" where
  "py_index xs i =
     (if 0 \<le> i
      then (if i < int (length xs) then Inr (xs ! nat i) else Inl IndexError)
      else (if - i \<le> int (length xs) then Inr (xs ! nat (int (length xs) + i))
            else Inl IndexError))"

definition digits_val :: "string \<Rightarrow> nat" where
  "digits_val s = foldl (\<lambda>a c. 10 * a + digit_val c) 0 s"

text \<open>
  \<open>int(s)\<close> on strings made of an optional sign and decimal digits, which is all that
  \<open>str\<close>, \<open>zfill\<close> and slicing of them produce; the empty string and a bare sign raise
  \<open>ValueError\<close>.
\<close>

definition py_int :: "string \<Rightarrow> error + int" where
  "py_int s =
     (case s of
        [] \<Rightarrow> Inl ValueError
      | c # r \<Rightarrow>
          if c = CHR ''-'' \<or> c = CHR ''+'' then
            (if r \<noteq> [] \<and> list_all is_digit r
             then Inr ((if c = CHR ''-'' then - 1 else 1) * int (digits_val r))
             else Inl ValueError)
          else if list_all is_digit s then Inr (int (digits_val s))
          else Inl ValueError)"

text \<open>\<open>bin(i)\<close>.\<close>

fun bin_digits :: "nat \<Rightarrow> string" where
  "bin_digits n = (if n < 2 then [digit_char n]
                   else bin_digits (n div 2) @ [digit_char (n mod 2)])"

declare bin_digits.simps [simp del]

definition py_bin :: "int \<Rightarrow> string" where
  "py_bin i = (if i < 0 then ''-0b'' @ bin_digits (nat (- i)) else ''0b'' @ bin_digits (nat i))"

section \<open>MiddleSquare\<close>

text \<open>
  \<open>__state\<close> is the dictionary with the keys \<open>val\<close> and \<open>ndigits\<close>; \<open>set_state\<close> installs
  whatever dictionary it is given, so the state is a map and not a pair of fields.
\<close>

record MiddleSquare =
  ms_seed :: int
  ms_state :: "string \<rightharpoonup> int"
  ms_seen_numbers :: "int set"

definition MiddleSquare_init :: "pyval \<Rightarrow> error + MiddleSquare" where
  "MiddleSquare_init seed =
     (case seed of
        PyInt s \<Rightarrow>
          (let str_seed = py_str s
           in if int (length str_seed) mod 2 \<noteq> 0 then Inl ValueError
              else (case py_int str_seed of
                      Inl e \<Rightarrow> Inl e
                    | Inr sd \<Rightarrow>
                        Inr \<lparr> ms_seed = sd,
                              ms_state = [''val'' \<mapsto> sd, ''ndigits'' \<mapsto> int (length (py_str sd))],
                              ms_seen_numbers = {} \<rparr>))
      | _ \<Rightarrow> Inl TypeError)"

definition ms_next :: "MiddleSquare \<Rightarrow> (int, MiddleSquare) step" where
  "ms_next self =
     (case ms_state self ''val'' of
        None \<Rightarrow> Raise KeyError self
      | Some v \<Rightarrow>
          (let st1 = (ms_state self)(''val'' \<mapsto> v * v)
           in case st1 ''ndigits'' of
                None \<Rightarrow> Raise KeyError (self\<lparr>ms_state := st1\<rparr>)
              | Some nd \<Rightarrow>
                  (let str_val = zfill (py_str (v * v)) (2 * nd)
                   in case py_int (py_slice str_val (nd div 2) (3 * nd div 2)) of
                        Inl e \<Rightarrow> Raise e (self\<lparr>ms_state := st1\<rparr>)
                      | Inr w \<Rightarrow>
                          (let self' = self\<lparr>ms_state := st1(''val'' \<mapsto> w)\<rparr>
                           in if w \<in> ms_seen_numbers self' then StopIteration self'
                              else Emit w (self'\<lparr>ms_seen_numbers :=
                                                  insert w (ms_seen_numbers self')\<rparr>)))))"

definition ms_get_state :: "MiddleSquare \<Rightarrow> (string \<rightharpoonup> int)" where
  "ms_get_state self = ms_state self"

definition ms_set_state :: "MiddleSquare \<Rightarrow> (string \<rightharpoonup> int) \<Rightarrow> MiddleSquare outcome" where
  "ms_set_state self state =
     (if ''ndigits'' \<in> dom state \<and> ''val'' \<in> dom state
      then Done (self\<lparr>ms_state := state\<rparr>)
      else Failed ValueError self)"

section \<open>LinearCongruential\<close>

record LinearCongruential =
  lcg_seed :: int
  lcg_a :: int
  lcg_c :: int
  lcg_m :: int
  lcg_value :: int
  lcg_state :: "string \<rightharpoonup> int"
  lcg_seen_numbers :: "int set"

definition LinearCongruential_init :: "int \<Rightarrow> int \<Rightarrow> int \<Rightarrow> int \<Rightarrow> LinearCongruential" where
  "LinearCongruential_init seed a c m =
     \<lparr> lcg_seed = seed, lcg_a = a, lcg_c = c, lcg_m = m, lcg_value = seed,
       lcg_state = [''val'' \<mapsto> seed, ''a'' \<mapsto> a, ''c'' \<mapsto> c, ''m'' \<mapsto> m],
       lcg_seen_numbers = {} \<rparr>"

text \<open>The value is recorded as seen before the recurrence is computed, so a zero modulus
  raises with the seen-set already extended.\<close>

definition lcg_next :: "LinearCongruential \<Rightarrow> (int, LinearCongruential) step" where
  "lcg_next self =
     (if lcg_value self \<in> lcg_seen_numbers self then StopIteration self
      else (let self1 = self\<lparr>lcg_seen_numbers :=
                               insert (lcg_value self) (lcg_seen_numbers self)\<rparr>
            in if lcg_m self1 = 0 then Raise ZeroDivisionError self1
               else (let v = (lcg_a self1 * lcg_value self1 + lcg_c self1) mod lcg_m self1
                     in Emit v (self1\<lparr>lcg_value := v\<rparr>))))"

definition lcg_get_state :: "LinearCongruential \<Rightarrow> (string \<rightharpoonup> int)" where
  "lcg_get_state self =
     [''val'' \<mapsto> lcg_value self, ''a'' \<mapsto> lcg_a self, ''c'' \<mapsto> lcg_c self, ''m'' \<mapsto> lcg_m self]"

text \<open>The four keys are read one after the other; a missing key raises \<open>KeyError\<close> with
  the earlier assignments already made.\<close>

definition lcg_set_state ::
  "LinearCongruential \<Rightarrow> (string \<rightharpoonup> int) \<Rightarrow> LinearCongruential outcome" where
  "lcg_set_state self state =
     (case state ''a'' of
        None \<Rightarrow> Failed KeyError self
      | Some a \<Rightarrow>
          (let s1 = self\<lparr>lcg_a := a\<rparr>
           in case state ''c'' of
                None \<Rightarrow> Failed KeyError s1
              | Some c \<Rightarrow>
                  (let s2 = s1\<lparr>lcg_c := c\<rparr>
                   in case state ''m'' of
                        None \<Rightarrow> Failed KeyError s2
                      | Some m \<Rightarrow>
                          (let s3 = s2\<lparr>lcg_m := m\<rparr>
                           in case state ''val'' of
                                None \<Rightarrow> Failed KeyError s3
                              | Some v \<Rightarrow>
                                  Done (s3\<lparr>lcg_value := v, lcg_seen_numbers := {}\<rparr>)))))"

section \<open>LaggedFibonacci\<close>

text \<open>
  \<open>__state\<close> holds the window \<open>val\<close> and the parameters \<open>j\<close>, \<open>k\<close>, \<open>m\<close>; \<open>__value\<close> is
  the copy of the seed taken at construction.
\<close>

record LaggedFibonacci =
  lf_val :: "int list"
  lf_j :: int
  lf_k :: int
  lf_m :: int
  lf_value :: "int list"

fun as_int :: "pyval \<Rightarrow> int option" where
  "as_int (PyInt i) = Some i"
| "as_int _ = None"

fun as_int_list :: "pyval list \<Rightarrow> int list option" where
  "as_int_list [] = Some []"
| "as_int_list (x # xs) =
     (case as_int x of
        None \<Rightarrow> None
      | Some i \<Rightarrow> (case as_int_list xs of None \<Rightarrow> None | Some is \<Rightarrow> Some (i # is)))"

definition LaggedFibonacci_init ::
  "pyval \<Rightarrow> int \<Rightarrow> int \<Rightarrow> pyval \<Rightarrow> error + LaggedFibonacci" where
  "LaggedFibonacci_init seed j k m =
     (case seed of
        PyList items \<Rightarrow>
          (case as_int_list items of
             None \<Rightarrow> Inl TypeError
           | Some sd \<Rightarrow>
               (case as_int m of
                  None \<Rightarrow> Inl ValueError
                | Some mi \<Rightarrow>
                    if \<not> (0 < j \<and> j < k \<and> k \<le> int (length sd)) then Inl ValueError
                    else Inr \<lparr> lf_val = sd, lf_j = j, lf_k = k, lf_m = mi, lf_value = sd \<rparr>))
      | _ \<Rightarrow> Inl TypeError)"

definition lf_next :: "LaggedFibonacci \<Rightarrow> (int, LaggedFibonacci) step" where
  "lf_next self =
     (let state = lf_val self; j = lf_j self; k = lf_k self; m = lf_m self
      in case py_index state (- k) of
           Inl e \<Rightarrow> Raise e self
         | Inr x \<Rightarrow>
             (case py_index state (- j) of
                Inl e \<Rightarrow> Raise e self
              | Inr y \<Rightarrow>
                  if m = 0 then Raise ZeroDivisionError self
                  else (let next_number = (x + y) mod m;
                            state' = tl (state @ [next_number]);
                            self' = self\<lparr>lf_val := state'\<rparr>
                        in if state' = lf_value self' then StopIteration self'
                           else Emit next_number self')))"

section \<open>Acorn\<close>

record Acorn =
  ac_vals :: "int list"
  ac_M :: int
  ac_seed :: "int list"
  ac_seen_numbers :: "int list list"

definition Acorn_init :: "pyval \<Rightarrow> pyval \<Rightarrow> error + Acorn" where
  "Acorn_init seed M =
     (case seed of
        PyList items \<Rightarrow>
          (case as_int_list items of
             None \<Rightarrow> Inl TypeError
           | Some sd \<Rightarrow>
               (case as_int M of
                  None \<Rightarrow> Inl ValueError
                | Some Mi \<Rightarrow>
                    (case py_index sd 0 of
                       Inl e \<Rightarrow> Inl e
                     | Inr s0 \<Rightarrow>
                         if s0 \<ge> Mi then Inl ValueError
                         else Inr \<lparr> ac_vals = sd, ac_M = Mi, ac_seed = sd,
                                    ac_seen_numbers = [sd] \<rparr>)))
      | _ \<Rightarrow> Inl TypeError)"

text \<open>The body of \<open>for i in range(1, len(vals))\<close>, run over the list of indices.\<close>

fun acorn_loop :: "int list \<Rightarrow> int \<Rightarrow> nat list \<Rightarrow> int list \<Rightarrow> int list" where
  "acorn_loop vals M [] new_vals = new_vals"
| "acorn_loop vals M (i # is) new_vals =
     acorn_loop vals M is (new_vals @ [(new_vals ! (i - 1) + vals ! i) mod M])"

text \<open>
  \<open>vals[0]\<close> raises on an empty list; the first \<open>%\<close> raises when \<open>M\<close> is zero, which
  happens as soon as the list has a second element.  The state is assigned last.
\<close>

definition acorn_next :: "Acorn \<Rightarrow> (int list, Acorn) step" where
  "acorn_next self =
     (case py_index (ac_vals self) 0 of
        Inl e \<Rightarrow> Raise e self
      | Inr v0 \<Rightarrow>
          if 1 < length (ac_vals self) \<and> ac_M self = 0 then Raise ZeroDivisionError self
          else (let new_vals = acorn_loop (ac_vals self) (ac_M self)
                                 [1 ..< length (ac_vals self)] [v0]
                in if new_vals = ac_seed self then StopIteration self
                   else Emit new_vals (self\<lparr>ac_vals := new_vals\<rparr>)))"

section \<open>Analyzer\<close>

datatype generator =
    GenMiddleSquare MiddleSquare
  | GenLinearCongruential LinearCongruential
  | GenLaggedFibonacci LaggedFibonacci
  | GenAcorn Acorn

text \<open>What the iteration hands to the analyzer: a number, or a list of numbers.\<close>

datatype item = Scalar int | Vector "int list"

fun map_step :: "('a \<Rightarrow> 'b) \<Rightarrow> ('s \<Rightarrow> 't) \<Rightarrow> ('a, 's) step \<Rightarrow> ('b, 't) step" where
  "map_step f g (Emit v s) = Emit (f v) (g s)"
| "map_step f g (StopIteration s) = StopIteration (g s)"
| "map_step f g (Raise e s) = Raise e (g s)"

fun gen_next :: "generator \<Rightarrow> (item, generator) step" where
  "gen_next (GenMiddleSquare g) = map_step Scalar GenMiddleSquare (ms_next g)"
| "gen_next (GenLinearCongruential g) = map_step Scalar GenLinearCongruential (lcg_next g)"
| "gen_next (GenLaggedFibonacci g) = map_step Scalar GenLaggedFibonacci (lf_next g)"
| "gen_next (GenAcorn g) = map_step Vector GenAcorn (acorn_next g)"

text \<open>\<open>isinstance(self.rand_num_gen, Acorn)\<close>.\<close>

fun is_Acorn :: "generator \<Rightarrow> bool" where
  "is_Acorn (GenAcorn g) = True"
| "is_Acorn _ = False"

text \<open>\<open>isinstance(num_list, list)\<close> decides between the list itself and a singleton.\<close>

fun numbers_of :: "item \<Rightarrow> int list" where
  "numbers_of (Vector xs) = xs"
| "numbers_of (Scalar x) = [x]"

text \<open>
  The fields of the object.  \<open>amax\<close> and \<open>amin\<close> are \<open>self.max\<close> and \<open>self.min\<close>, \<open>None\<close>
  until a number has been seen.  \<open>average\<close> is the exact quotient that Python rounds to a
  float.
\<close>

record Analyzer =
  rand_num_gen :: generator
  amax :: "int option"
  amin :: "int option"
  average :: real
  period :: nat
  bit_freqs :: "nat list"

definition Analyzer_init :: "generator \<Rightarrow> Analyzer" where
  "Analyzer_init g =
     \<lparr> rand_num_gen = g, amax = None, amin = None, average = 0, period = 0, bit_freqs = [] \<rparr>"

text \<open>The local variables of \<open>analyze\<close>.\<close>

record locals =
  total :: int
  count :: nat
  seen_numbers :: "int set"

text \<open>\<open>for i in range(bit_length): if num & (1 << i): bit_freqs[i] += 1\<close>.\<close>

fun count_bits :: "int \<Rightarrow> nat list \<Rightarrow> nat list \<Rightarrow> nat list" where
  "count_bits num [] bf = bf"
| "count_bits num (i # is) bf =
     count_bits num is (if num AND push_bit i 1 \<noteq> 0 then bf[i := bf ! i + 1] else bf)"

text \<open>The body of the inner loop, for one number.\<close>

definition process_number :: "int \<Rightarrow> Analyzer \<times> locals \<Rightarrow> Analyzer \<times> locals" where
  "process_number num sl =
     (let self = fst sl; l = snd sl;
          self1 = (if amin self = None \<or> num < the (amin self)
                   then self\<lparr>amin := Some num\<rparr> else self);
          self2 = (if amax self1 = None \<or> num > the (amax self1)
                   then self1\<lparr>amax := Some num\<rparr> else self1);
          l1 = l\<lparr>total := total l + num\<rparr>;
          bit_length = nat (int (length (py_bin (the (amax self2)))) - 2);
          self3 = (if length (bit_freqs self2) < bit_length
                   then self2\<lparr>bit_freqs := bit_freqs self2 @
                                 replicate (bit_length - length (bit_freqs self2)) 0\<rparr>
                   else self2);
          self4 = self3\<lparr>bit_freqs := count_bits num [0 ..< bit_length] (bit_freqs self3)\<rparr>;
          l2 = l1\<lparr>seen_numbers := insert num (seen_numbers l1)\<rparr>
      in (self4, l2\<lparr>count := count l2 + 1\<rparr>))"

definition process_numbers :: "int list \<Rightarrow> Analyzer \<times> locals \<Rightarrow> Analyzer \<times> locals" where
  "process_numbers numbers sl = fold process_number numbers sl"

text \<open>
  The outer loop.  The iterator is advanced first and the bound is tested afterwards, on
  the item that was just fetched; the bound is not tested between the numbers of one
  list.  \<open>StopIteration\<close> ends the loop, any other exception leaves \<open>analyze\<close>.

  The recursion ends because no generator hands out an empty list, so every round that
  does not stop adds to \<open>count\<close>.
\<close>

function analyze_loop :: "int \<Rightarrow> Analyzer \<Rightarrow> locals \<Rightarrow> (Analyzer \<times> locals) outcome" where
  "analyze_loop max_nums self l =
     (case gen_next (rand_num_gen self) of
        StopIteration g' \<Rightarrow> Done (self\<lparr>rand_num_gen := g'\<rparr>, l)
      | Raise e g' \<Rightarrow> Failed e (self\<lparr>rand_num_gen := g'\<rparr>, l)
      | Emit num_list g' \<Rightarrow>
          if int (count l) \<ge> max_nums then Done (self\<lparr>rand_num_gen := g'\<rparr>, l)
          else (case process_numbers (numbers_of num_list) (self\<lparr>rand_num_gen := g'\<rparr>, l) of
                  (self', l') \<Rightarrow> analyze_loop max_nums self' l'))"
  by pat_completeness auto
termination
proof (relation "measure (\<lambda>(max_nums, self, l). nat (max_nums - int (count l)))", goal_cases)
  case 1
  show ?case by simp
next
  case (2 max_nums self l num_list g' self' l')
  have len: "length (acorn_loop vals M is acc) = length acc + length is"
    for vals M "is" acc
    by (induction "is" arbitrary: acc) auto
  have ac: "v \<noteq> []" if "acorn_next a = Emit v a'" for a v a'
    using that unfolding acorn_next_def Let_def
    by (cases "py_index (ac_vals a) 0")
       (auto split: if_splits simp: len dest!: arg_cong[where f=length])
  have ms: "\<exists>v' t'. s = Emit v' t' \<and> v = f v' \<and> t = g t'"
    if "map_step f g s = Emit v t" for f g v t and s :: "('a, 'b) step"
    using that by (cases s) auto
  have "numbers_of it \<noteq> []" if "gen_next gen = Emit it gen'" for gen it gen'
    using that by (cases gen) (auto dest!: ms ac)
  from this [OF 2(1)] have ne: "numbers_of num_list \<noteq> []" .
  have cnt1: "count (snd (process_number n sl)) = count (snd sl) + 1" for n sl
    by (simp add: process_number_def Let_def)
  have cnt: "count (snd (fold process_number ns sl)) = count (snd sl) + length ns" for ns sl
    by (induction ns arbitrary: sl) (simp_all add: cnt1)
  have "count l' = count l + length (numbers_of num_list)"
    using cnt[of "numbers_of num_list" "(self\<lparr>rand_num_gen := g'\<rparr>, l)"] 2(3)
    unfolding process_numbers_def by (metis snd_conv)
  with ne 2(2) show ?case by (cases "numbers_of num_list") auto
qed

declare analyze_loop.simps [simp del]

definition locals_init :: locals where
  "locals_init = \<lparr> total = 0, count = 0, seen_numbers = {} \<rparr>"

text \<open>\<open>analyze\<close>: the loop, then the average and the period.\<close>

definition analyze :: "int \<Rightarrow> Analyzer \<Rightarrow> Analyzer outcome" where
  "analyze max_nums self =
     (case analyze_loop max_nums self locals_init of
        Failed e (self', l) \<Rightarrow> Failed e self'
      | Done (self', l) \<Rightarrow>
          (let self1 = self'\<lparr>average := (if count l > 0
                                          then real_of_int (total l) / real (count l)
                                          else 0)\<rparr>
           in Done (self1\<lparr>period := (if is_Acorn (rand_num_gen self1)
                                      then card (seen_numbers l) else count l)\<rparr>)))"

section \<open>Runs and reference notions\<close>

text \<open>
  Calling \<open>__next__\<close> up to \<open>n\<close> times, as a \<open>for\<close> loop over the generator does: the values
  returned, how the run ended, and the object afterwards.
\<close>

datatype ending = Exhausted | Crashed error | Unfinished

fun iterate :: "('s \<Rightarrow> ('v, 's) step) \<Rightarrow> nat \<Rightarrow> 's \<Rightarrow> 'v list \<times> ending \<times> 's" where
  "iterate nxt 0 s = ([], Unfinished, s)"
| "iterate nxt (Suc n) s =
     (case nxt s of
        Emit v s' \<Rightarrow> (case iterate nxt n s' of (vs, e, t) \<Rightarrow> (v # vs, e, t))
      | StopIteration s' \<Rightarrow> ([], Exhausted, s')
      | Raise e s' \<Rightarrow> ([], Crashed e, s'))"

text \<open>
  The numbers one pass of \<open>analyze\<close> handles, in order, when it starts with the generator
  \<open>g\<close> and \<open>cnt\<close> numbers already counted: the reference for "the samples processed".
\<close>

function samples_processed :: "int \<Rightarrow> generator \<Rightarrow> nat \<Rightarrow> int list" where
  "samples_processed max_nums g cnt =
     (case gen_next g of
        Emit num_list g' \<Rightarrow>
          if int cnt \<ge> max_nums then []
          else numbers_of num_list @
               samples_processed max_nums g' (cnt + length (numbers_of num_list))
      | _ \<Rightarrow> [])"
  by pat_completeness auto
termination
proof (relation "measure (\<lambda>(max_nums, g, cnt). nat (max_nums - int cnt))", goal_cases)
  case 1
  show ?case by simp
next
  case (2 max_nums g cnt num_list g')
  have len: "length (acorn_loop vals M is acc) = length acc + length is"
    for vals M "is" acc
    by (induction "is" arbitrary: acc) auto
  have ac: "v \<noteq> []" if "acorn_next a = Emit v a'" for a v a'
    using that unfolding acorn_next_def Let_def
    by (cases "py_index (ac_vals a) 0")
       (auto split: if_splits simp: len dest!: arg_cong[where f=length])
  have ms: "\<exists>v' t'. s = Emit v' t' \<and> v = f v' \<and> t = g t'"
    if "map_step f g s = Emit v t" for f g v t and s :: "('a, 'b) step"
    using that by (cases s) auto
  have "numbers_of it \<noteq> []" if "gen_next gen = Emit it gen'" for gen it gen'
    using that by (cases gen) (auto dest!: ms ac)
  from this [OF 2(1)] have "numbers_of num_list \<noteq> []" .
  with 2(2) show ?case by (cases "numbers_of num_list") auto
qed

declare samples_processed.simps [simp del]

text \<open>Python's \<open>int.bit_length\<close>: the number of binary digits of \<open>\<bar>i\<bar>\<close>, and 0 for 0.\<close>

fun nat_bit_length :: "nat \<Rightarrow> nat" where
  "nat_bit_length n = (if n = 0 then 0 else Suc (nat_bit_length (n div 2)))"

declare nat_bit_length.simps [simp del]

definition bit_length :: "int \<Rightarrow> nat" where
  "bit_length i = nat_bit_length (nat \<bar>i\<bar>)"

text \<open>
  What the constructor of MiddleSquare establishes and every advance keeps: the number of
  digits is positive and even, and the value has no more digits than that.
\<close>

definition ms_wf :: "MiddleSquare \<Rightarrow> bool" where
  "ms_wf g =
     (case ms_state g ''val'' of
        None \<Rightarrow> False
      | Some v \<Rightarrow>
          (case ms_state g ''ndigits'' of
             None \<Rightarrow> False
           | Some nd \<Rightarrow> 0 < nd \<and> even nd \<and> \<bar>v\<bar> < 10 ^ nat nd))"

text \<open>The object (or pair) an outcome carries, whether the call finished or raised.\<close>

fun outcome_state :: "'s outcome \<Rightarrow> 's" where
  "outcome_state (Done s) = s"
| "outcome_state (Failed e s) = s"

fun is_Done :: "'s outcome \<Rightarrow> bool" where
  "is_Done (Done s) = True"
| "is_Done (Failed e s) = False"

text \<open>The loop of \<open>analyze\<close> on a newly constructed Analyzer: the object and the local
  variables when the loop is left.\<close>

definition analyze_run :: "int \<Rightarrow> generator \<Rightarrow> Analyzer \<times> locals" where
  "analyze_run max_nums g = outcome_state (analyze_loop max_nums (Analyzer_init g) locals_init)"

text \<open>
  What the inner loop of \<open>analyze\<close> keeps true of a newly constructed Analyzer and the
  local variables: no bit counter exceeds \<open>count\<close>; \<open>self.max\<close> is \<open>None\<close> only before the
  first number and is otherwise the largest number seen; and while no negative number has
  been seen, \<open>bit_freqs\<close> is as long as \<open>bin(self.max)\<close> without its prefix.
\<close>

definition bits_inv :: "Analyzer \<times> locals \<Rightarrow> bool" where
  "bits_inv sl =
     ((\<forall>f \<in> set (bit_freqs (fst sl)). f \<le> count (snd sl)) \<and>
      (case amax (fst sl) of
         None \<Rightarrow> seen_numbers (snd sl) = {} \<and> bit_freqs (fst sl) = []
       | Some M \<Rightarrow>
           M \<in> seen_numbers (snd sl) \<and> (\<forall>x \<in> seen_numbers (snd sl). x \<le> M) \<and>
           ((\<forall>x \<in> seen_numbers (snd sl). 0 \<le> x) \<longrightarrow>
              length (bit_freqs (fst sl)) = length (py_bin M) - 2)))"

section \<open>Concrete instances\<close>

text \<open>A MiddleSquare object that has seen 14, and a LinearCongruential one that has seen
  its seed.\<close>

definition ms_ex :: MiddleSquare where
  "ms_ex = \<lparr> ms_seed = 12, ms_state = [''val'' \<mapsto> 14, ''ndigits'' \<mapsto> 2],
             ms_seen_numbers = {14} \<rparr>"

definition lcg_ex :: LinearCongruential where
  "lcg_ex = (LinearCongruential_init 36 455 9126 879)\<lparr>lcg_seen_numbers := {36}\<rparr>"

text \<open>\<open>LaggedFibonacci([0, 1], 1, 2, 2)\<close> after two advances, and \<open>Acorn([1, 1], 2)\<close> after
  one: the next advance of each raises \<open>StopIteration\<close>.\<close>

definition lf_ex :: LaggedFibonacci where
  "lf_ex = \<lparr> lf_val = [1, 0], lf_j = 1, lf_k = 2, lf_m = 2, lf_value = [0, 1] \<rparr>"

definition acorn_last :: Acorn where
  "acorn_last = \<lparr> ac_vals = [1, 0], ac_M = 2, ac_seed = [1, 1], ac_seen_numbers = [[1, 1]] \<rparr>"

text \<open>The Acorn generator of the driver script, as constructed.\<close>

definition acorn_ex :: Acorn where
  "acorn_ex = \<lparr> ac_vals = [1, 5, 6, 4, 4, 5, 8, 9, 4], ac_M = 12356,
                ac_seed = [1, 5, 6, 4, 4, 5, 8, 9, 4],
                ac_seen_numbers = [[1, 5, 6, 4, 4, 5, 8, 9, 4]] \<rparr>"

text \<open>The LaggedFibonacci generator of the driver script, as constructed.\<close>

definition lf_drv :: LaggedFibonacci where
  "lf_drv = \<lparr> lf_val = [1, 2, 3, 4, 6, 1, 4], lf_j = 1, lf_k = 6, lf_m = 365,
               lf_value = [1, 2, 3, 4, 6, 1, 4] \<rparr>"

text \<open>A small LinearCongruential generator: it returns 0, 1, 3 and is exhausted.\<close>

definition lcg_small :: LinearCongruential where
  "lcg_small = LinearCongruential_init 3 2 1 7"

text \<open>A LinearCongruential generator that returns 0 once, and an Acorn generator with a
  negative first element.\<close>

definition lcg_zero :: LinearCongruential where
  "lcg_zero = LinearCongruential_init 0 1 0 5"

definition acorn_neg :: Acorn where
  "acorn_neg = \<lparr> ac_vals = [- 5, 1], ac_M = 10, ac_seed = [- 5, 1], ac_seen_numbers = [[- 5, 1]] \<rparr>"

text \<open>\<open>MiddleSquare(12)\<close> as constructed (its first advance gives \<open>ms_ex\<close>), and \<open>ms_ex\<close>
  after \<open>set_state({"val": 12345, "ndigits": 2})\<close>.\<close>

definition ms_new :: MiddleSquare where
  "ms_new = \<lparr> ms_seed = 12, ms_state = [''val'' \<mapsto> 12, ''ndigits'' \<mapsto> 2],
              ms_seen_numbers = {} \<rparr>"

definition ms_wide :: MiddleSquare where
  "ms_wide = \<lparr> ms_seed = 12, ms_state = [''val'' \<mapsto> 12345, ''ndigits'' \<mapsto> 2],
               ms_seen_numbers = {14} \<rparr>"

section \<open>Properties\<close>

subsection \<open>Generator steps\<close>

lemma lf_ex_reached:
  "\<exists>g. LaggedFibonacci_init (PyList [PyInt 0, PyInt 1]) 1 2 (PyInt 2) = Inr g \<and>
       iterate lf_next 2 g = ([1, 0], Unfinished, lf_ex)"
  by (simp add: LaggedFibonacci_init_def lf_next_def py_index_def lf_ex_def numeral_2_eq_2)

lemma acorn_last_reached:
  "\<exists>g. Acorn_init (PyList [PyInt 1, PyInt 1]) (PyInt 2) = Inr g \<and>
       iterate acorn_next 1 g = ([[1, 0]], Unfinished, acorn_last)"
  by (simp add: Acorn_init_def acorn_next_def py_index_def acorn_last_def Let_def)

text \<open>
  C4.  An advance of LinearCongruential, for a non-zero modulus: if the current value has
  been recorded already, \<open>StopIteration\<close> is raised and nothing changes; otherwise the
  current value is recorded, \<open>(a * value + c) mod m\<close> becomes the current value and is
  returned.
\<close>

theorem lcg_next_recurrence:
  assumes "lcg_m g \<noteq> 0"
  shows "lcg_next g =
     (if lcg_value g \<in> lcg_seen_numbers g then StopIteration g
      else Emit ((lcg_a g * lcg_value g + lcg_c g) mod lcg_m g)
             (g\<lparr>lcg_seen_numbers := insert (lcg_value g) (lcg_seen_numbers g),
                lcg_value := (lcg_a g * lcg_value g + lcg_c g) mod lcg_m g\<rparr>))"
  using assms by (simp add: lcg_next_def Let_def)

theorem lcg_next_recurrence_witness:
  "lcg_next (LinearCongruential_init 36 455 9126 879) =
     Emit 15 ((LinearCongruential_init 36 455 9126 879)
                \<lparr>lcg_seen_numbers := {36}, lcg_value := 15\<rparr>)"
  using lcg_next_recurrence [of "LinearCongruential_init 36 455 9126 879"]
  by (simp add: LinearCongruential_init_def)

text \<open>
  C8.  \<open>set_state\<close> of MiddleSquare accepts any dictionary with the two keys, whatever
  its \<open>ndigits\<close>, installs it as the state and keeps the set of seen numbers; \<open>set_state\<close>
  of LinearCongruential takes \<open>a\<close>, \<open>c\<close>, \<open>m\<close> and the value from the dictionary and
  empties the set of seen numbers.
\<close>

theorem set_state_asymmetry:
  "(''ndigits'' \<in> dom d \<and> ''val'' \<in> dom d \<longrightarrow>
      (\<exists>g'. ms_set_state g d = Done g' \<and> ms_state g' = d \<and>
            ms_seen_numbers g' = ms_seen_numbers g)) \<and>
   (e ''a'' = Some a \<and> e ''c'' = Some c \<and> e ''m'' = Some m \<and> e ''val'' = Some v \<longrightarrow>
      (\<exists>h'. lcg_set_state h e = Done h' \<and> lcg_a h' = a \<and> lcg_c h' = c \<and> lcg_m h' = m \<and>
            lcg_value h' = v \<and> lcg_seen_numbers h' = {}))"
  by (simp add: ms_set_state_def lcg_set_state_def)

theorem set_state_asymmetry_witness:
  "ms_set_state ms_ex [''val'' \<mapsto> 5, ''ndigits'' \<mapsto> 4]
     = Done \<lparr> ms_seed = 12, ms_state = [''val'' \<mapsto> 5, ''ndigits'' \<mapsto> 4],
              ms_seen_numbers = {14} \<rparr>
   \<and> (case lcg_set_state lcg_ex [''val'' \<mapsto> 7, ''a'' \<mapsto> 3, ''c'' \<mapsto> 1, ''m'' \<mapsto> 10] of
         Done h' \<Rightarrow> lcg_a h' = 3 \<and> lcg_c h' = 1 \<and> lcg_m h' = 10 \<and> lcg_value h' = 7 \<and>
                    lcg_seen_numbers h' = {}
       | Failed x h' \<Rightarrow> False)"
  using set_state_asymmetry [of "[''val'' \<mapsto> 5, ''ndigits'' \<mapsto> 4]" ms_ex
      "[''val'' \<mapsto> 7, ''a'' \<mapsto> 3, ''c'' \<mapsto> 1, ''m'' \<mapsto> 10]" 3 1 10 7 lcg_ex]
  by (auto simp: ms_set_state_def ms_ex_def)

text \<open>
  C10.  An advance of Acorn that raises \<open>StopIteration\<close> leaves the object as it was.  An
  advance of LaggedFibonacci that raises \<open>StopIteration\<close> leaves the window shifted: the
  new number appended and the oldest dropped, which is then the seed.
\<close>

theorem exhaustion_state_effects:
  "(acorn_next a = StopIteration a' \<longrightarrow> a' = a) \<and>
   (lf_next f = StopIteration f' \<longrightarrow>
      (\<exists>x y. py_index (lf_val f) (- lf_k f) = Inr x \<and> py_index (lf_val f) (- lf_j f) = Inr y \<and>
             lf_val f' = tl (lf_val f @ [(x + y) mod lf_m f])) \<and>
      lf_val f' = lf_value f \<and> f' = f\<lparr>lf_val := lf_val f'\<rparr>)"
  by (auto simp: acorn_next_def lf_next_def Let_def split: sum.splits if_splits)

theorem exhaustion_state_effects_witness:
  "acorn_next acorn_last = StopIteration acorn_last \<and>
   lf_next lf_ex = StopIteration (lf_ex\<lparr>lf_val := [0, 1]\<rparr>) \<and>
   lf_val lf_ex = [1, 0] \<and> lf_val (lf_ex\<lparr>lf_val := [0, 1]\<rparr>) \<noteq> lf_val lf_ex"
  using exhaustion_state_effects [of acorn_last acorn_last lf_ex "lf_ex\<lparr>lf_val := [0, 1]\<rparr>"]
  by (simp add: acorn_next_def lf_next_def py_index_def lf_ex_def acorn_last_def Let_def)

lemma acorn_loop_upt:
  "length acc = a \<Longrightarrow> 0 < a \<Longrightarrow> a \<le> b \<Longrightarrow>
   length (acorn_loop vals M [a ..< b] acc) = b \<and>
   take a (acorn_loop vals M [a ..< b] acc) = acc \<and>
   (\<forall>i. a \<le> i \<and> i < b \<longrightarrow>
        acorn_loop vals M [a ..< b] acc ! i =
        (acorn_loop vals M [a ..< b] acc ! (i - 1) + vals ! i) mod M)"
proof (induction "b - a" arbitrary: a acc)
  case 0
  then show ?case by simp
next
  case (Suc d)
  let ?x = "(acc ! (a - 1) + vals ! a) mod M"
  let ?acc = "acc @ [?x]"
  let ?r = "acorn_loop vals M [Suc a ..< b] ?acc"
  from Suc.hyps(2) Suc.prems have ab: "a < b" by simp
  then have unf: "acorn_loop vals M [a ..< b] acc = ?r"
    by (simp add: upt_conv_Cons)
  have d: "d = b - Suc a" using Suc.hyps(2) by simp
  have ih: "length ?r = b \<and> take (Suc a) ?r = ?acc \<and>
      (\<forall>i. Suc a \<le> i \<and> i < b \<longrightarrow> ?r ! i = (?r ! (i - 1) + vals ! i) mod M)"
    using Suc.hyps(1)[OF d, of ?acc] Suc.prems ab by simp
  from ih have len: "length ?r = b" and tk: "take (Suc a) ?r = ?acc" by simp_all
  have nth_lt: "?r ! i = ?acc ! i" if "i < Suc a" for i
    using that tk by (metis nth_take)
  have tka: "take a ?r = acc"
  proof -
    have "take a ?r = take a (take (Suc a) ?r)" by (simp add: min_def)
    also have "\<dots> = take a ?acc" by (simp only: tk)
    also have "\<dots> = acc" using Suc.prems(1) by simp
    finally show ?thesis .
  qed
  have ra: "?r ! a = ?x" using nth_lt[of a] Suc.prems(1) by (simp add: nth_append)
  have ra1: "?r ! (a - 1) = acc ! (a - 1)"
    using nth_lt[of "a - 1"] Suc.prems(1,2) by (simp add: nth_append)
  have step: "?r ! i = (?r ! (i - 1) + vals ! i) mod M" if "a \<le> i" "i < b" for i
  proof (cases "i = a")
    case True
    then show ?thesis using ra ra1 by simp
  next
    case False
    with that have "Suc a \<le> i" by simp
    with ih that show ?thesis by blast
  qed
  show ?case unfolding unf using len tka step by blast
qed

text \<open>
  C5.  An advance of Acorn on a non-empty vector (with a non-zero modulus, unless the
  vector has one element and no \<open>%\<close> is computed) builds the vector \<open>new\<close> with
  \<open>new[0] = old[0]\<close> and \<open>new[i] = (new[i-1] + old[i]) mod M\<close> for \<open>i \<ge> 1\<close>; it raises
  \<open>StopIteration\<close> exactly when \<open>new\<close> is the seed, and otherwise stores and returns
  \<open>new\<close>.  For the seed \<open>[1,5,6,4,4,5,8,9,4]\<close> and \<open>M = 12356\<close> the first vector returned
  has 1 at index 0 and 6 at index 1.
\<close>

theorem acorn_next_recurrence:
  "(ac_vals g \<noteq> [] \<and> (ac_M g \<noteq> 0 \<or> length (ac_vals g) = 1) \<longrightarrow>
      (\<exists>new. length new = length (ac_vals g) \<and> new ! 0 = ac_vals g ! 0 \<and>
         (\<forall>i. 1 \<le> i \<and> i < length new \<longrightarrow>
              new ! i = (new ! (i - 1) + ac_vals g ! i) mod ac_M g) \<and>
         acorn_next g = (if new = ac_seed g then StopIteration g
                         else Emit new (g\<lparr>ac_vals := new\<rparr>)))) \<and>
   Acorn_init (PyList (map PyInt [1, 5, 6, 4, 4, 5, 8, 9, 4])) (PyInt 12356) = Inr acorn_ex \<and>
   (\<exists>new g'. acorn_next acorn_ex = Emit new g' \<and> new ! 0 = 1 \<and> new ! 1 = 6)"
proof (intro conjI impI)
  assume h: "ac_vals g \<noteq> [] \<and> (ac_M g \<noteq> 0 \<or> length (ac_vals g) = 1)"
  let ?vals = "ac_vals g"
  let ?new = "acorn_loop ?vals (ac_M g) [1 ..< length ?vals] [?vals ! 0]"
  from h have pos: "1 \<le> length ?vals" by (cases ?vals) auto
  have spec: "length ?new = length ?vals \<and> take 1 ?new = [?vals ! 0] \<and>
      (\<forall>i. 1 \<le> i \<and> i < length ?vals \<longrightarrow> ?new ! i = (?new ! (i - 1) + ?vals ! i) mod ac_M g)"
    using acorn_loop_upt[of "[?vals ! 0]" 1 "length ?vals" ?vals "ac_M g"] pos by simp
  then have len: "length ?new = length ?vals" by simp
  from spec have "take 1 ?new ! 0 = ?vals ! 0" by simp
  then have n0: "?new ! 0 = ?vals ! 0" by simp
  have nxt: "acorn_next g = (if ?new = ac_seed g then StopIteration g
                         else Emit ?new (g\<lparr>ac_vals := ?new\<rparr>))"
    using h pos by (auto simp: acorn_next_def py_index_def Let_def)
  show "\<exists>new. length new = length (ac_vals g) \<and> new ! 0 = ac_vals g ! 0 \<and>
         (\<forall>i. 1 \<le> i \<and> i < length new \<longrightarrow>
              new ! i = (new ! (i - 1) + ac_vals g ! i) mod ac_M g) \<and>
         acorn_next g = (if new = ac_seed g then StopIteration g
                         else Emit new (g\<lparr>ac_vals := new\<rparr>))"
    using spec len n0 nxt by (intro exI[of _ ?new]) simp
next
  show "Acorn_init (PyList (map PyInt [1, 5, 6, 4, 4, 5, 8, 9, 4])) (PyInt 12356) = Inr acorn_ex"
    by (simp add: Acorn_init_def acorn_ex_def py_index_def)
next
  have "acorn_next acorn_ex = Emit [1, 6, 12, 16, 20, 25, 33, 42, 46]
          (acorn_ex\<lparr>ac_vals := [1, 6, 12, 16, 20, 25, 33, 42, 46]\<rparr>)"
    by (simp add: acorn_next_def acorn_ex_def py_index_def Let_def upt_rec)
  then show "\<exists>new g'. acorn_next acorn_ex = Emit new g' \<and> new ! 0 = 1 \<and> new ! 1 = 6"
    by simp
qed

theorem acorn_next_recurrence_witness:
  "acorn_next acorn_last = StopIteration acorn_last \<and>
   acorn_next acorn_ex = Emit [1, 6, 12, 16, 20, 25, 33, 42, 46]
          (acorn_ex\<lparr>ac_vals := [1, 6, 12, 16, 20, 25, 33, 42, 46]\<rparr>)"
  using acorn_next_recurrence [of acorn_ex] acorn_next_recurrence [of acorn_last]
  by (simp add: acorn_next_def acorn_ex_def acorn_last_def py_index_def Let_def upt_rec)

subsection \<open>Runs and construction\<close>

text \<open>
  C7, as stated, fails: with multiplier 1, increment 0 and modulus 3, the two-digit seed 10
  makes the generator return two values before it raises \<open>StopIteration\<close>.
\<close>

theorem lcg_identity_counterexample:
  "even (length (py_str 10)) \<and> (0::int) < 3 \<and>
   fst (iterate lcg_next 3 (LinearCongruential_init 10 1 0 3)) = [1, 1]"
  by (simp add: py_str_def nat_digits.simps lcg_next_def LinearCongruential_init_def
        numeral_3_eq_3 Let_def)

text \<open>
  C7, amended.  With multiplier 1, increment 0 and a modulus \<open>m > 0\<close>, a run of the
  generator returns the seed once and is then exhausted when \<open>0 \<le> seed < m\<close>; otherwise it
  returns \<open>seed mod m\<close> twice and is then exhausted.  So at most two values are returned.
\<close>

theorem lcg_identity_run:
  assumes "0 < m"
  shows "fst (iterate lcg_next (n + 3) (LinearCongruential_init seed 1 0 m)) =
           (if 0 \<le> seed \<and> seed < m then [seed] else [seed mod m, seed mod m]) \<and>
         fst (snd (iterate lcg_next (n + 3) (LinearCongruential_init seed 1 0 m))) = Exhausted"
proof -
  have n3: "n + 3 = Suc (Suc (Suc n))" by simp
  have fixed: "seed mod m = seed \<longleftrightarrow> 0 \<le> seed \<and> seed < m"
    using assms by (metis mod_pos_pos_trivial pos_mod_bound pos_mod_sign)
  show ?thesis
    unfolding n3 using assms fixed
    by (auto simp: lcg_next_def LinearCongruential_init_def Let_def)
qed

theorem lcg_identity_run_witness:
  "fst (iterate lcg_next 3 (LinearCongruential_init 2 1 0 3)) = [2] \<and>
   fst (snd (iterate lcg_next 3 (LinearCongruential_init 2 1 0 3))) = Exhausted \<and>
   fst (iterate lcg_next 3 (LinearCongruential_init 10 1 0 3)) = [1, 1] \<and>
   fst (snd (iterate lcg_next 3 (LinearCongruential_init 10 1 0 3))) = Exhausted"
  using lcg_identity_run [of 3 0 2] lcg_identity_run [of 3 0 10]
  by simp

text \<open>
  C9.  The constructor of LaggedFibonacci raises \<open>TypeError\<close> when the seed is not a list
  of integers; for a list of integers it raises \<open>ValueError\<close> when \<open>m\<close> is not an integer or
  \<open>0 < j < k \<le> len(seed)\<close> fails; otherwise it returns the object.  After a successful
  construction the first advance raises nothing that the constructor checks for: the only
  exception it can raise is \<open>ZeroDivisionError\<close>, for a zero modulus.
\<close>

theorem LaggedFibonacci_init_validates:
  "((\<forall>sd. seed \<noteq> PyList (map PyInt sd)) \<longrightarrow>
       LaggedFibonacci_init seed j k m = Inl TypeError) \<and>
   (seed = PyList (map PyInt sd) \<and>
    ((\<forall>mi. m \<noteq> PyInt mi) \<or> \<not> (0 < j \<and> j < k \<and> k \<le> int (length sd))) \<longrightarrow>
       LaggedFibonacci_init seed j k m = Inl ValueError) \<and>
   (seed = PyList (map PyInt sd) \<and> m = PyInt mi \<and> 0 < j \<and> j < k \<and> k \<le> int (length sd) \<longrightarrow>
       LaggedFibonacci_init seed j k m =
         Inr \<lparr> lf_val = sd, lf_j = j, lf_k = k, lf_m = mi, lf_value = sd \<rparr>) \<and>
   (LaggedFibonacci_init seed j k m = Inr g \<and> lf_next g = Raise e g' \<longrightarrow>
       e = ZeroDivisionError \<and> lf_m g = 0)"
proof -
  have ail1: "as_int_list (map PyInt is) = Some is" for "is"
    by (induction "is") auto
  have ail2: "as_int_list xs = Some is \<Longrightarrow> xs = map PyInt is" for xs "is"
  proof (induction xs arbitrary: "is")
    case Nil
    then show ?case by auto
  next
    case (Cons x xs)
    then show ?case by (cases x) (auto split: option.splits)
  qed
  have ail: "as_int_list xs = Some is \<longleftrightarrow> xs = map PyInt is" for xs "is"
    using ail1 ail2 by blast
  have ai: "as_int v = Some i \<longleftrightarrow> v = PyInt i" for v i
    by (cases v) auto
  have ailN: "as_int_list xs = None \<longleftrightarrow> (\<forall>is. xs \<noteq> map PyInt is)" for xs
    using ail[of xs] by (cases "as_int_list xs") auto
  have aiN: "as_int v = None \<longleftrightarrow> (\<forall>i. v \<noteq> PyInt i)" for v
    by (cases v) auto
  have A: "LaggedFibonacci_init seed j k m = Inl TypeError" if "\<forall>sd. seed \<noteq> PyList (map PyInt sd)"
  proof (cases seed)
    case (PyList items)
    with that have "as_int_list items = None" by (simp add: ailN)
    with PyList show ?thesis by (simp add: LaggedFibonacci_init_def)
  qed (simp_all add: LaggedFibonacci_init_def)
  have B: "LaggedFibonacci_init seed j k m = Inl ValueError"
    if "seed = PyList (map PyInt sd)"
       "(\<forall>mi. m \<noteq> PyInt mi) \<or> \<not> (0 < j \<and> j < k \<and> k \<le> int (length sd))"
  proof -
    have s: "as_int_list (map PyInt sd) = Some sd" by (simp add: ail)
    show ?thesis
    proof (cases "as_int m")
      case None
      then show ?thesis using that(1) s by (simp add: LaggedFibonacci_init_def)
    next
      case (Some mi)
      then have "m = PyInt mi" by (simp add: ai)
      with that(2) have "\<not> (0 < j \<and> j < k \<and> k \<le> int (length sd))" by blast
      then show ?thesis using that(1) s Some by (auto simp: LaggedFibonacci_init_def)
    qed
  qed
  have C: "LaggedFibonacci_init seed j k m =
         Inr \<lparr> lf_val = sd, lf_j = j, lf_k = k, lf_m = mi, lf_value = sd \<rparr>"
    if "seed = PyList (map PyInt sd)" "m = PyInt mi" "0 < j" "j < k" "k \<le> int (length sd)"
  proof -
    have s: "as_int_list (map PyInt sd) = Some sd" by (simp add: ail)
    show ?thesis using that s by (simp add: LaggedFibonacci_init_def)
  qed
  have D: "e = ZeroDivisionError \<and> lf_m g = 0"
    if "LaggedFibonacci_init seed j k m = Inr g" "lf_next g = Raise e g'"
  proof -
    from that(1) have rng: "0 < lf_j g" "lf_j g < lf_k g" "lf_k g \<le> int (length (lf_val g))"
      by (auto simp: LaggedFibonacci_init_def split: pyval.splits option.splits if_splits)
    then have "\<exists>x. py_index (lf_val g) (- lf_k g) = Inr x" "\<exists>y. py_index (lf_val g) (- lf_j g) = Inr y"
      by (auto simp: py_index_def)
    with that(2) show ?thesis
      by (auto simp: lf_next_def Let_def split: if_splits)
  qed
  show ?thesis using A B C D by blast
qed


theorem LaggedFibonacci_init_validates_witness:
  "LaggedFibonacci_init (PyList (map PyInt [1, 2, 3, 4, 6, 1, 4])) 1 6 (PyInt 365) = Inr lf_drv \<and>
   LaggedFibonacci_init (PyList (map PyInt [1, 2, 3, 4, 6, 1, 4])) 1 8 (PyInt 365) = Inl ValueError \<and>
   LaggedFibonacci_init (PyList (map PyInt [1, 2, 3, 4, 6, 1, 4])) 1 6 PyNone = Inl ValueError \<and>
   LaggedFibonacci_init (PyStr ''seed'') 1 6 (PyInt 365) = Inl TypeError \<and>
   lf_next lf_drv = Emit 6 (lf_drv\<lparr>lf_val := [2, 3, 4, 6, 1, 4, 6]\<rparr>)"
proof -
  note T = LaggedFibonacci_init_validates
  have a: "LaggedFibonacci_init (PyList (map PyInt [1, 2, 3, 4, 6, 1, 4])) 1 6 (PyInt 365) =
      Inr \<lparr> lf_val = [1, 2, 3, 4, 6, 1, 4], lf_j = 1, lf_k = 6, lf_m = 365,
               lf_value = [1, 2, 3, 4, 6, 1, 4] \<rparr>"
    by (rule T [THEN conjunct2, THEN conjunct2, THEN conjunct1, rule_format]) simp
  have b: "LaggedFibonacci_init (PyList (map PyInt [1, 2, 3, 4, 6, 1, 4])) 1 8 (PyInt 365) =
      Inl ValueError"
    by (rule T [THEN conjunct2, THEN conjunct1, rule_format, where sd = "[1, 2, 3, 4, 6, 1, 4]"])
       simp
  have c: "LaggedFibonacci_init (PyList (map PyInt [1, 2, 3, 4, 6, 1, 4])) 1 6 PyNone =
      Inl ValueError"
    by (rule T [THEN conjunct2, THEN conjunct1, rule_format, where sd = "[1, 2, 3, 4, 6, 1, 4]"])
       simp
  have d: "LaggedFibonacci_init (PyStr ''seed'') 1 6 (PyInt 365) = Inl TypeError"
    by (rule T [THEN conjunct1, rule_format]) simp
  have e: "lf_next lf_drv = Emit 6 (lf_drv\<lparr>lf_val := [2, 3, 4, 6, 1, 4, 6]\<rparr>)"
    by (simp add: lf_drv_def lf_next_def py_index_def Let_def)
  from a b c d e show ?thesis by (simp add: lf_drv_def)
qed

subsection \<open>The analyzer\<close>

lemma pn_gen: "rand_num_gen (fst (process_number n sl)) = rand_num_gen (fst sl)"
  by (simp add: process_number_def Let_def)

lemma pn_count: "count (snd (process_number n sl)) = count (snd sl) + 1"
  by (simp add: process_number_def Let_def)

lemma pn_seen: "seen_numbers (snd (process_number n sl)) = insert n (seen_numbers (snd sl))"
  by (simp add: process_number_def Let_def)

lemma pn_total: "total (snd (process_number n sl)) = total (snd sl) + n"
  by (simp add: process_number_def Let_def)

lemma pns_gen: "rand_num_gen (fst (process_numbers ns sl)) = rand_num_gen (fst sl)"
  unfolding process_numbers_def by (induction ns arbitrary: sl) (simp_all add: pn_gen)

lemma pns_count: "count (snd (process_numbers ns sl)) = count (snd sl) + length ns"
  unfolding process_numbers_def by (induction ns arbitrary: sl) (simp_all add: pn_count)

lemma pns_seen: "seen_numbers (snd (process_numbers ns sl)) = seen_numbers (snd sl) \<union> set ns"
  unfolding process_numbers_def by (induction ns arbitrary: sl) (simp_all add: pn_seen)

lemma pns_total: "total (snd (process_numbers ns sl)) = total (snd sl) + sum_list ns"
  unfolding process_numbers_def by (induction ns arbitrary: sl) (simp_all add: pn_total)

lemma map_step_cases:
  "map_step f h s = Emit v t \<longleftrightarrow> (\<exists>v' t'. s = Emit v' t' \<and> v = f v' \<and> t = h t')"
  "map_step f h s = StopIteration t \<longleftrightarrow> (\<exists>t'. s = StopIteration t' \<and> t = h t')"
  "map_step f h s = Raise e t \<longleftrightarrow> (\<exists>t'. s = Raise e t' \<and> t = h t')"
  by (cases s; auto)+

lemma gen_next_is_Acorn:
  "gen_next g = Emit v g' \<or> gen_next g = StopIteration g' \<or> gen_next g = Raise e g' \<Longrightarrow>
   is_Acorn g' = is_Acorn g"
  by (cases g) (auto simp: map_step_cases)

lemma loop_samples:
  "outcome_state (analyze_loop mx self l) = (self', l') \<Longrightarrow>
   count l' = count l + length (samples_processed mx (rand_num_gen self) (count l)) \<and>
   seen_numbers l' = seen_numbers l \<union> set (samples_processed mx (rand_num_gen self) (count l)) \<and>
   total l' = total l + sum_list (samples_processed mx (rand_num_gen self) (count l)) \<and>
   is_Acorn (rand_num_gen self') = is_Acorn (rand_num_gen self)"
proof (induction mx self l arbitrary: self' l' rule: analyze_loop.induct)
  case (1 mx self l)
  let ?xs = "samples_processed mx (rand_num_gen self) (count l)"
  show ?case
  proof (cases "gen_next (rand_num_gen self)")
    case (StopIteration g')
    then have sp: "?xs = []"
      by (simp add: samples_processed.simps[of mx "rand_num_gen self" "count l"])
    have lp: "analyze_loop mx self l = Done (self\<lparr>rand_num_gen := g'\<rparr>, l)"
      using StopIteration by (simp add: analyze_loop.simps[of mx self l])
    have "is_Acorn g' = is_Acorn (rand_num_gen self)"
      using gen_next_is_Acorn[of "rand_num_gen self" _ g'] StopIteration by simp
    with "1.prems" sp lp show ?thesis by auto
  next
    case (Raise e g')
    then have sp: "?xs = []"
      by (simp add: samples_processed.simps[of mx "rand_num_gen self" "count l"])
    have lp: "analyze_loop mx self l = Failed e (self\<lparr>rand_num_gen := g'\<rparr>, l)"
      using Raise by (simp add: analyze_loop.simps[of mx self l])
    have "is_Acorn g' = is_Acorn (rand_num_gen self)"
      using gen_next_is_Acorn[of "rand_num_gen self" _ g' e] Raise by simp
    with "1.prems" sp lp show ?thesis by auto
  next
    case (Emit it g')
    have acorn: "is_Acorn g' = is_Acorn (rand_num_gen self)"
      using gen_next_is_Acorn[of "rand_num_gen self" it g'] Emit by simp
    show ?thesis
    proof (cases "mx \<le> int (count l)")
      case True
      with Emit have sp: "?xs = []"
        by (simp add: samples_processed.simps[of mx "rand_num_gen self" "count l"])
      have lp: "analyze_loop mx self l = Done (self\<lparr>rand_num_gen := g'\<rparr>, l)"
        using Emit True by (simp add: analyze_loop.simps[of mx self l])
      from "1.prems" sp lp acorn show ?thesis by auto
    next
      case False
      obtain s2 l2 where p: "process_numbers (numbers_of it) (self\<lparr>rand_num_gen := g'\<rparr>, l) = (s2, l2)"
        by (cases "process_numbers (numbers_of it) (self\<lparr>rand_num_gen := g'\<rparr>, l)")
      have g2: "rand_num_gen s2 = g'"
        using pns_gen[of "numbers_of it" "(self\<lparr>rand_num_gen := g'\<rparr>, l)"] p by simp
      have c2: "count l2 = count l + length (numbers_of it)"
        using pns_count[of "numbers_of it" "(self\<lparr>rand_num_gen := g'\<rparr>, l)"] p by simp
      have s2: "seen_numbers l2 = seen_numbers l \<union> set (numbers_of it)"
        using pns_seen[of "numbers_of it" "(self\<lparr>rand_num_gen := g'\<rparr>, l)"] p by simp
      have t2: "total l2 = total l + sum_list (numbers_of it)"
        using pns_total[of "numbers_of it" "(self\<lparr>rand_num_gen := g'\<rparr>, l)"] p by simp
      have loop: "analyze_loop mx self l = analyze_loop mx s2 l2"
        using Emit False p by (simp add: analyze_loop.simps[of mx self l])
      have sp: "?xs = numbers_of it @ samples_processed mx g' (count l2)"
        using Emit False c2
        by (simp add: samples_processed.simps[of mx "rand_num_gen self" "count l"])
      have ih: "count l' = count l2 + length (samples_processed mx (rand_num_gen s2) (count l2)) \<and>
         seen_numbers l' = seen_numbers l2 \<union> set (samples_processed mx (rand_num_gen s2) (count l2)) \<and>
         total l' = total l2 + sum_list (samples_processed mx (rand_num_gen s2) (count l2)) \<and>
         is_Acorn (rand_num_gen self') = is_Acorn (rand_num_gen s2)"
        using "1.IH"[OF Emit False p[symmetric]] "1.prems" loop by simp
      show ?thesis using ih g2 c2 s2 t2 sp acorn by auto
    qed
  qed
qed

text \<open>
  C1.  When \<open>analyze\<close> returns, the period it has set is, for an Acorn generator, the
  number of distinct values among the numbers processed, and for every other generator
  the number of numbers processed; the former never exceeds the latter.
\<close>

theorem analyze_period:
  assumes "analyze max_nums self = Done self'"
  shows "period self' =
           (if is_Acorn (rand_num_gen self)
            then card (set (samples_processed max_nums (rand_num_gen self) 0))
            else length (samples_processed max_nums (rand_num_gen self) 0)) \<and>
         card (set (samples_processed max_nums (rand_num_gen self) 0))
           \<le> length (samples_processed max_nums (rand_num_gen self) 0)"
proof -
  obtain a l where al: "outcome_state (analyze_loop max_nums self locals_init) = (a, l)"
    by (cases "outcome_state (analyze_loop max_nums self locals_init)")
  from loop_samples[OF al]
  have c: "count l = length (samples_processed max_nums (rand_num_gen self) 0)"
    and s: "seen_numbers l = set (samples_processed max_nums (rand_num_gen self) 0)"
    and g: "is_Acorn (rand_num_gen a) = is_Acorn (rand_num_gen self)"
    by (simp_all add: locals_init_def)
  from assms al have d: "analyze_loop max_nums self locals_init = Done (a, l)"
    by (cases "analyze_loop max_nums self locals_init") (auto simp: analyze_def)
  from assms d have "period self' = (if is_Acorn (rand_num_gen a) then card (seen_numbers l) else count l)"
    by (auto simp: analyze_def Let_def)
  with c s g show ?thesis by (simp add: card_length)
qed


lemma is_Done_eq: "is_Done x \<Longrightarrow> x = Done (outcome_state x)"
  by (cases x) auto

theorem analyze_period_witness:
  "period (outcome_state (analyze 10 (Analyzer_init (GenAcorn acorn_ex)))) = 17 \<and>
   length (samples_processed 10 (GenAcorn acorn_ex) 0) = 18 \<and>
   period (outcome_state (analyze 100000 (Analyzer_init (GenLinearCongruential lcg_small)))) = 3"
proof -
  have "is_Done (analyze 10 (Analyzer_init (GenAcorn acorn_ex)))"
    by code_simp
  then have d1: "analyze 10 (Analyzer_init (GenAcorn acorn_ex)) =
              Done (outcome_state (analyze 10 (Analyzer_init (GenAcorn acorn_ex))))"
    by (rule is_Done_eq)
  have s1: "samples_processed 10 (GenAcorn acorn_ex) 0 =
              [1, 6, 12, 16, 20, 25, 33, 42, 46, 1, 7, 19, 35, 55, 80, 113, 155, 201]"
    by code_simp
  have "is_Done (analyze 100000 (Analyzer_init (GenLinearCongruential lcg_small)))"
    by code_simp
  then have d2: "analyze 100000 (Analyzer_init (GenLinearCongruential lcg_small)) =
              Done (outcome_state (analyze 100000 (Analyzer_init (GenLinearCongruential lcg_small))))"
    by (rule is_Done_eq)
  have s2: "samples_processed 100000 (GenLinearCongruential lcg_small) 0 = [0, 1, 3]"
    by code_simp
  have c: "card {1, 6, 12, 16, 20, 25, 33, 42, 46, 1, 7, 19, 35, 55, 80, 113, 155, 201 :: int} = 17"
    by code_simp
  from analyze_period [OF d1] analyze_period [OF d2] s1 s2 c show ?thesis
    by (simp add: Analyzer_init_def)
qed

text \<open>For the generators that return single numbers the bound is respected.\<close>

lemma gen_next_scalar:
  "\<not> is_Acorn g \<Longrightarrow> gen_next g = Emit it g' \<Longrightarrow> length (numbers_of it) = 1 \<and> \<not> is_Acorn g'"
  by (cases g) (auto simp: map_step_cases)

lemma samples_processed_scalar_bound:
  "\<not> is_Acorn g \<Longrightarrow> int cnt \<le> mx \<Longrightarrow>
   int (cnt + length (samples_processed mx g cnt)) \<le> mx"
proof (induction mx g cnt rule: samples_processed.induct)
  case (1 mx g cnt)
  show ?case
  proof (cases "gen_next g")
    case (Emit it g')
    show ?thesis
    proof (cases "mx \<le> int cnt")
      case True
      with Emit "1.prems" show ?thesis
        by (simp add: samples_processed.simps[of mx g cnt])
    next
      case False
      from gen_next_scalar[OF "1.prems"(1) Emit]
      have one: "length (numbers_of it) = 1" and na: "\<not> is_Acorn g'" by simp_all
      from False one have le: "int (cnt + length (numbers_of it)) \<le> mx" by simp
      from "1.IH"[OF Emit False na le] Emit False one show ?thesis
        by (simp add: samples_processed.simps[of mx g cnt])
    qed
  next
    case (StopIteration g')
    with "1.prems" show ?thesis by (simp add: samples_processed.simps[of mx g cnt])
  next
    case (Raise e g')
    with "1.prems" show ?thesis by (simp add: samples_processed.simps[of mx g cnt])
  qed
qed

lemma analyze_scalar_bound:
  assumes "\<not> is_Acorn g" "0 \<le> max_nums"
  shows "int (count (snd (analyze_run max_nums g))) \<le> max_nums"
proof -
  obtain a l where al: "outcome_state (analyze_loop max_nums (Analyzer_init g) locals_init) = (a, l)"
    by (cases "outcome_state (analyze_loop max_nums (Analyzer_init g) locals_init)")
  from loop_samples[OF al] have "count l = length (samples_processed max_nums g 0)"
    by (simp add: locals_init_def Analyzer_init_def)
  with samples_processed_scalar_bound[OF assms(1), of 0 max_nums] assms(2) al
  show ?thesis by (simp add: analyze_run_def)
qed

text \<open>
  C2, at an input where the code departs from it: with \<open>max_nums = 5\<close> the Acorn generator
  of the driver script has all nine numbers of its first vector processed, because the
  bound is tested once per item and not once per number.
\<close>

theorem analyze_overshoots_bound:
  "count (snd (analyze_run 5 (GenAcorn acorn_ex))) = 9 \<and>
   samples_processed 5 (GenAcorn acorn_ex) 0 = [1, 6, 12, 16, 20, 25, 33, 42, 46]"
  by code_simp

subsection \<open>Bit frequencies\<close>

lemma nat_bit_length_mono: "m \<le> n \<Longrightarrow> nat_bit_length m \<le> nat_bit_length n"
proof (induction n arbitrary: m rule: nat_bit_length.induct)
  case (1 n)
  show ?case
  proof (cases "m = 0")
    case True
    then show ?thesis by (simp add: nat_bit_length.simps[of 0])
  next
    case False
    with "1.prems" have n0: "n \<noteq> 0" by simp
    have "m div 2 \<le> n div 2" using "1.prems" by (rule div_le_mono)
    from "1.IH"[OF n0 this] False n0 show ?thesis
      by (simp add: nat_bit_length.simps[of m] nat_bit_length.simps[of n])
  qed
qed

lemma nat_bit_length_pos: "0 < n \<Longrightarrow> 0 < nat_bit_length n"
  by (simp add: nat_bit_length.simps[of n])

lemma length_bin_digits: "length (bin_digits n) = max 1 (nat_bit_length n)"
proof (induction n rule: bin_digits.induct)
  case (1 n)
  show ?case
  proof (cases "n < 2")
    case True
    then have "n = 0 \<or> n = 1" by auto
    then show ?thesis
      by (auto simp: bin_digits.simps[of 0] bin_digits.simps[of 1] bin_digits.simps[of "Suc 0"]
            nat_bit_length.simps[of 0] nat_bit_length.simps[of 1] nat_bit_length.simps[of "Suc 0"])
  next
    case False
    then have "0 < n div 2" by simp
    then have "0 < nat_bit_length (n div 2)" by (rule nat_bit_length_pos)
    with "1.IH"[OF False] False show ?thesis
      by (simp add: bin_digits.simps[of n] nat_bit_length.simps[of n])
  qed
qed

lemma py_bin_length: "0 \<le> M \<Longrightarrow> length (py_bin M) - 2 = max 1 (bit_length M)"
  by (simp add: py_bin_def length_bin_digits bit_length_def)

lemma py_bin_mono: "0 \<le> a \<Longrightarrow> a \<le> b \<Longrightarrow> length (py_bin a) - 2 \<le> length (py_bin b) - 2"
proof -
  assume a: "0 \<le> a" "a \<le> b"
  then have "nat \<bar>a\<bar> \<le> nat \<bar>b\<bar>" by simp
  then have "nat_bit_length (nat \<bar>a\<bar>) \<le> nat_bit_length (nat \<bar>b\<bar>)" by (rule nat_bit_length_mono)
  with a show ?thesis by (simp add: py_bin_length bit_length_def)
qed

lemma count_bits_length: "length (count_bits num is bf) = length bf"
  by (induction "is" arbitrary: bf) auto

lemma count_bits_nth:
  "distinct is \<Longrightarrow> count_bits num is bf ! i \<le> bf ! i + (if i \<in> set is then 1 else 0)"
proof (induction "is" arbitrary: bf)
  case Nil
  then show ?case by simp
next
  case (Cons j js)
  let ?bf = "if num AND push_bit j 1 \<noteq> 0 then bf[j := bf ! j + 1] else bf"
  from Cons.prems have d: "distinct js" and nj: "j \<notin> set js" by simp_all
  have ih: "count_bits num js ?bf ! i \<le> ?bf ! i + (if i \<in> set js then 1 else 0)"
    by (rule Cons.IH[OF d])
  have b: "?bf ! i \<le> bf ! i + (if i = j then 1 else 0)"
    by (cases "j < length bf") (auto simp: list_update_beyond)
  show ?case
  proof (cases "i = j")
    case True
    with ih b nj show ?thesis by simp
  next
    case False
    with ih b show ?thesis by simp
  qed
qed

lemma count_bits_bound:
  assumes "distinct is" "\<forall>f \<in> set bf. f \<le> c"
  shows "\<forall>f \<in> set (count_bits num is bf). f \<le> c + 1"
proof
  fix f assume "f \<in> set (count_bits num is bf)"
  then obtain i where i: "i < length bf" "f = count_bits num is bf ! i"
    by (auto simp: in_set_conv_nth count_bits_length)
  from i(1) assms(2) have "bf ! i \<le> c" by simp
  with count_bits_nth[OF assms(1), of num bf i] i(2) show "f \<le> c + 1"
    by (auto split: if_splits)
qed

lemma py_bin_len3: "2 \<le> length (py_bin M)"
  by (simp add: py_bin_def)

lemma bits_inv_process_number:
  assumes "bits_inv sl"
  shows "bits_inv (process_number num sl)"
proof -
  obtain a l where sl: "sl = (a, l)" by (cases sl)
  let ?M = "case amax a of None \<Rightarrow> num | Some M \<Rightarrow> if num > M then num else M"
  let ?bl = "length (py_bin ?M) - 2"
  let ?bf1 = "if length (bit_freqs a) < ?bl
              then bit_freqs a @ replicate (?bl - length (bit_freqs a)) 0 else bit_freqs a"
  let ?bf2 = "count_bits num [0 ..< ?bl] ?bf1"
  have nat_bl: "nat (int (length (py_bin M)) - 2) = length (py_bin M) - 2" for M
    by simp
  have fst_p: "bit_freqs (fst (process_number num sl)) = ?bf2"
    and max_p: "amax (fst (process_number num sl)) = Some ?M"
    and cnt_p: "count (snd (process_number num sl)) = count l + 1"
    and seen_p: "seen_numbers (snd (process_number num sl)) = insert num (seen_numbers l)"
    unfolding sl process_number_def Let_def nat_bl
    by (cases "amax a"; simp)+
  have old: "\<forall>f \<in> set (bit_freqs a). f \<le> count l"
    using assms by (simp add: bits_inv_def sl)
  have bf1: "\<forall>f \<in> set ?bf1. f \<le> count l" using old by auto
  have J1: "\<forall>f \<in> set ?bf2. f \<le> count l + 1"
    by (rule count_bits_bound[OF _ bf1]) simp
  have len2: "length ?bf2 = max (length (bit_freqs a)) ?bl"
    by (simp add: count_bits_length)
  have J2: "?M \<in> insert num (seen_numbers l) \<and> (\<forall>x \<in> insert num (seen_numbers l). x \<le> ?M)"
    using assms by (cases "amax a") (auto simp: bits_inv_def sl)
  have J3: "length ?bf2 = ?bl" if nn: "\<forall>x \<in> insert num (seen_numbers l). 0 \<le> x"
  proof (cases "amax a")
    case None
    with assms have "bit_freqs a = []" by (simp add: bits_inv_def sl)
    with len2 show ?thesis by simp
  next
    case (Some M)
    with assms nn have M: "M \<in> seen_numbers l" "length (bit_freqs a) = length (py_bin M) - 2"
      by (auto simp: bits_inv_def sl)
    with nn have M0: "0 \<le> M" by blast
    have "M \<le> ?M" using Some by simp
    from py_bin_mono[OF M0 this] M(2) len2 show ?thesis by simp
  qed
  show ?thesis
    unfolding bits_inv_def fst_p max_p cnt_p seen_p
    using J1 J2 J3 by simp
qed

lemma bits_inv_process_numbers: "bits_inv sl \<Longrightarrow> bits_inv (process_numbers ns sl)"
  unfolding process_numbers_def
  by (induction ns arbitrary: sl) (simp_all add: bits_inv_process_number)

lemma bits_inv_gen: "bits_inv (a, l) \<Longrightarrow> bits_inv (a\<lparr>rand_num_gen := g\<rparr>, l)"
  by (cases "amax a") (simp_all add: bits_inv_def)

lemma bits_inv_loop:
  "bits_inv (self, l) \<Longrightarrow> bits_inv (outcome_state (analyze_loop mx self l))"
proof (induction mx self l rule: analyze_loop.induct)
  case (1 mx self l)
  show ?case
  proof (cases "gen_next (rand_num_gen self)")
    case (StopIteration g')
    then show ?thesis using "1.prems"
      by (simp add: analyze_loop.simps[of mx self l] bits_inv_gen)
  next
    case (Raise e g')
    then show ?thesis using "1.prems"
      by (simp add: analyze_loop.simps[of mx self l] bits_inv_gen)
  next
    case (Emit it g')
    show ?thesis
    proof (cases "mx \<le> int (count l)")
      case True
      with Emit show ?thesis using "1.prems"
        by (simp add: analyze_loop.simps[of mx self l] bits_inv_gen)
    next
      case False
      obtain s2 l2 where p: "process_numbers (numbers_of it) (self\<lparr>rand_num_gen := g'\<rparr>, l) = (s2, l2)"
        by (cases "process_numbers (numbers_of it) (self\<lparr>rand_num_gen := g'\<rparr>, l)")
      have "bits_inv (s2, l2)"
        using bits_inv_process_numbers[OF bits_inv_gen[OF "1.prems", where g = g'],
                where ns = "numbers_of it"] p
        by simp
      from "1.IH"[OF Emit False p[symmetric] this] Emit False p show ?thesis
        by (simp add: analyze_loop.simps[of mx self l])
    qed
  qed
qed

lemma bits_inv_init: "bits_inv (Analyzer_init g, locals_init)"
  by (simp add: bits_inv_def Analyzer_init_def locals_init_def)

text \<open>
  C6, amended.  After the loop of \<open>analyze\<close> on a newly constructed Analyzer, every entry
  of \<open>bit_freqs\<close> is at most the number of numbers processed; \<open>self.max\<close> is the largest of
  them; and when none of them is negative, \<open>bit_freqs\<close> has \<open>max(1, bit_length(self.max))\<close>
  entries, which is the number of binary digits of \<open>self.max\<close>, one for 0.
\<close>

theorem analyze_bit_freqs:
  "(\<forall>f \<in> set (bit_freqs (fst (analyze_run max_nums g))).
       f \<le> length (samples_processed max_nums g 0)) \<and>
   (samples_processed max_nums g 0 \<noteq> [] \<longrightarrow>
       amax (fst (analyze_run max_nums g)) = Some (Max (set (samples_processed max_nums g 0)))) \<and>
   (samples_processed max_nums g 0 \<noteq> [] \<and> (\<forall>x \<in> set (samples_processed max_nums g 0). 0 \<le> x) \<longrightarrow>
       length (bit_freqs (fst (analyze_run max_nums g)))
         = max 1 (bit_length (Max (set (samples_processed max_nums g 0)))))"
proof -
  let ?xs = "samples_processed max_nums g 0"
  obtain a l where al: "outcome_state (analyze_loop max_nums (Analyzer_init g) locals_init) = (a, l)"
    by (cases "outcome_state (analyze_loop max_nums (Analyzer_init g) locals_init)")
  then have run: "analyze_run max_nums g = (a, l)" by (simp add: analyze_run_def)
  from loop_samples[OF al]
  have c: "count l = length ?xs" and s: "seen_numbers l = set ?xs"
    by (simp_all add: locals_init_def Analyzer_init_def)
  have inv: "bits_inv (a, l)"
    using bits_inv_loop[OF bits_inv_init, of max_nums g] al by simp
  have A: "\<forall>f \<in> set (bit_freqs a). f \<le> length ?xs"
    using inv c by (simp add: bits_inv_def)
  have B: "amax a = Some (Max (set ?xs))" if "?xs \<noteq> []"
  proof (cases "amax a")
    case None
    with inv s that show ?thesis by (simp add: bits_inv_def)
  next
    case (Some M)
    with inv s have "M \<in> set ?xs" "\<forall>x \<in> set ?xs. x \<le> M" by (simp_all add: bits_inv_def)
    then have "Max (set ?xs) = M" by (intro Max_eqI) auto
    with Some show ?thesis by simp
  qed
  have C: "length (bit_freqs a) = max 1 (bit_length (Max (set ?xs)))"
    if "?xs \<noteq> []" "\<forall>x \<in> set ?xs. 0 \<le> x"
  proof -
    from B[OF that(1)] have m: "amax a = Some (Max (set ?xs))" .
    with inv s have "Max (set ?xs) \<in> set ?xs" by (simp add: bits_inv_def)
    with that(2) have 0: "0 \<le> Max (set ?xs)" by blast
    from inv m s that(2) have "length (bit_freqs a) = length (py_bin (Max (set ?xs))) - 2"
      by (simp add: bits_inv_def)
    with py_bin_length[OF 0] show ?thesis by simp
  qed
  show ?thesis unfolding run using A B C by simp
qed


theorem analyze_bit_freqs_witness:
  "samples_processed 100000 (GenLinearCongruential lcg_small) 0 = [0, 1, 3] \<and>
   amax (fst (analyze_run 100000 (GenLinearCongruential lcg_small))) = Some 3 \<and>
   length (bit_freqs (fst (analyze_run 100000 (GenLinearCongruential lcg_small)))) = 2 \<and>
   bit_freqs (fst (analyze_run 100000 (GenLinearCongruential lcg_small))) = [2, 1]"
proof -
  have s: "samples_processed 100000 (GenLinearCongruential lcg_small) 0 = [0, 1, 3]"
    by code_simp
  have m: "Max {0, 1, 3 :: int} = 3" by simp
  have b: "bit_length 3 = 2" by code_simp
  have f: "bit_freqs (fst (analyze_run 100000 (GenLinearCongruential lcg_small))) = [2, 1]"
    by code_simp
  from analyze_bit_freqs [of 100000 "GenLinearCongruential lcg_small"] s m b f
  show ?thesis by (simp add: numeral_3_eq_3 numeral_2_eq_2)
qed

text \<open>
  C6, as stated, fails: a generator whose only number is 0 leaves \<open>bit_freqs = [0]\<close>, one
  entry, while the bit length of 0 is 0.
\<close>

theorem analyze_bit_freqs_counterexample:
  "samples_processed 100000 (GenLinearCongruential lcg_zero) 0 = [0] \<and>
   amax (fst (analyze_run 100000 (GenLinearCongruential lcg_zero))) = Some 0 \<and>
   bit_freqs (fst (analyze_run 100000 (GenLinearCongruential lcg_zero))) = [0] \<and>
   bit_length 0 < length (bit_freqs (fst (analyze_run 100000 (GenLinearCongruential lcg_zero))))"
  by code_simp

text \<open>
  With a negative number first, \<open>bin\<close> counts the minus sign: \<open>Acorn([-5, 1], 10)\<close> leaves
  four entries although the largest number, 6, has three binary digits.
\<close>

lemma analyze_bit_freqs_negative:
  "Acorn_init (PyList [PyInt (- 5), PyInt 1]) (PyInt 10) = Inr acorn_neg \<and>
   samples_processed 100000 (GenAcorn acorn_neg) 0 = [- 5, 6] \<and>
   amax (fst (analyze_run 100000 (GenAcorn acorn_neg))) = Some 6 \<and>
   bit_freqs (fst (analyze_run 100000 (GenAcorn acorn_neg))) = [1, 2, 1, 1] \<and>
   bit_length 6 = 3"
proof -
  have "Acorn_init (PyList [PyInt (- 5), PyInt 1]) (PyInt 10) = Inr acorn_neg"
    by (simp add: Acorn_init_def acorn_neg_def py_index_def)
  moreover have "samples_processed 100000 (GenAcorn acorn_neg) 0 = [- 5, 6] \<and>
   amax (fst (analyze_run 100000 (GenAcorn acorn_neg))) = Some 6 \<and>
   bit_freqs (fst (analyze_run 100000 (GenAcorn acorn_neg))) = [1, 2, 1, 1] \<and>
   bit_length 6 = 3"
    by code_simp
  ultimately show ?thesis by simp
qed

subsection \<open>The middle-square step\<close>

lemma digit_cases: "d < 10 \<Longrightarrow> d \<in> {0, 1, 2, 3, 4, 5, 6, 7, 8, 9 :: nat}"
  by auto

lemma digit_char_props:
  assumes "d < 10"
  shows "is_digit (digit_char d)" "digit_val (digit_char d) = d"
  using digit_cases[OF assms]
  by (auto simp: digit_char_def is_digit_def digit_val_def)

lemma is_digit_props:
  assumes "is_digit c"
  shows "digit_val c < 10" "c \<noteq> CHR ''-''" "c \<noteq> CHR ''+''"
  using assms by (auto simp: is_digit_def digit_val_def)

lemma nat_digits_ne: "nat_digits n \<noteq> []"
  by (subst nat_digits.simps) simp

lemma nat_digits_all: "list_all is_digit (nat_digits n)"
proof (induction n rule: nat_digits.induct)
  case (1 n)
  show ?case
  proof (cases "n < 10")
    case True
    then show ?thesis by (simp add: nat_digits.simps[of n] digit_char_props)
  next
    case False
    with "1.IH" show ?thesis
      by (simp add: nat_digits.simps[of n] digit_char_props)
  qed
qed

lemma digits_val_snoc: "digits_val (s @ [c]) = 10 * digits_val s + digit_val c"
  by (simp add: digits_val_def)

lemma digits_val_append:
  "digits_val (xs @ ys) = digits_val xs * 10 ^ length ys + digits_val ys"
proof (induction ys rule: rev_induct)
  case Nil
  then show ?case by (simp add: digits_val_def)
next
  case (snoc y ys)
  have "digits_val (xs @ ys @ [y]) = 10 * digits_val (xs @ ys) + digit_val y"
    using digits_val_snoc[of "xs @ ys" y] by simp
  also have "\<dots> = 10 * (digits_val xs * 10 ^ length ys + digits_val ys) + digit_val y"
    by (simp only: snoc.IH)
  also have "\<dots> = digits_val xs * 10 ^ length (ys @ [y]) + digits_val (ys @ [y])"
    by (simp add: digits_val_snoc algebra_simps)
  finally show ?case by simp
qed

lemma digits_val_bound: "list_all is_digit s \<Longrightarrow> digits_val s < 10 ^ length s"
proof (induction s rule: rev_induct)
  case Nil
  then show ?case by (simp add: digits_val_def)
next
  case (snoc c s)
  then have "digits_val s < 10 ^ length s" "digit_val c < 10"
    by (simp_all add: is_digit_props)
  then have "10 * digits_val s + digit_val c < 10 * 10 ^ length s" by simp
  then show ?case by (simp add: digits_val_snoc)
qed

lemma digits_val_zeros: "digits_val (replicate k CHR ''0'') = 0"
proof (induction k)
  case 0
  show ?case by (simp add: digits_val_def)
next
  case (Suc k)
  have "replicate (Suc k) CHR ''0'' = replicate k CHR ''0'' @ [CHR ''0'']"
    by (simp add: replicate_append_same)
  then show ?case using Suc by (simp add: digits_val_snoc digit_val_def del: replicate.simps)
qed

lemma nat_digits_val: "digits_val (nat_digits n) = n"
proof (induction n rule: nat_digits.induct)
  case (1 n)
  show ?case
  proof (cases "n < 10")
    case True
    then show ?thesis
      by (simp add: nat_digits.simps[of n] digits_val_def digit_char_props)
  next
    case False
    with "1.IH" show ?thesis
      by (simp add: nat_digits.simps[of n] digits_val_snoc digit_char_props)
  qed
qed

lemma nat_digits_length_le: "0 < k \<Longrightarrow> n < 10 ^ k \<Longrightarrow> length (nat_digits n) \<le> k"
proof (induction n arbitrary: k rule: nat_digits.induct)
  case (1 n)
  show ?case
  proof (cases "n < 10")
    case True
    with "1.prems" show ?thesis by (simp add: nat_digits.simps[of n])
  next
    case False
    with "1.prems" have k2: "1 < k" by (cases "k = 1") auto
    then obtain k' where k': "k = Suc k'" "0 < k'" by (cases k) auto
    from "1.prems"(2) k' have "n div 10 < 10 ^ k'"
      by (simp add: less_mult_imp_div_less mult.commute)
    from "1.IH"[OF False k'(2) this] False k' show ?thesis
      by (simp add: nat_digits.simps[of n])
  qed
qed

lemma nat_digits_bound: "n < 10 ^ length (nat_digits n)"
  using digits_val_bound[OF nat_digits_all, of n] by (simp add: nat_digits_val)


lemma py_str_nonneg: "0 \<le> i \<Longrightarrow> py_str i = nat_digits (nat i)"
  by (simp add: py_str_def)

lemma zfill_digits:
  "zfill (nat_digits n) w
     = replicate (nat (w - int (length (nat_digits n)))) CHR ''0'' @ nat_digits n"
proof (cases "nat_digits n")
  case Nil
  then show ?thesis using nat_digits_ne[of n] by simp
next
  case (Cons c r)
  with nat_digits_all[of n] have "is_digit c" by simp
  then have "c \<noteq> CHR ''-''" "c \<noteq> CHR ''+''" by (rule is_digit_props)+
  with Cons show ?thesis by (simp add: zfill_def Let_def)
qed

lemma is_digit_zero: "is_digit CHR ''0''"
  by (simp add: is_digit_def)

lemma square_padded:
  assumes "0 < nd" "\<bar>v\<bar> < 10 ^ nat nd"
  shows "length (zfill (py_str (v * v)) (2 * nd)) = 2 * nat nd"
    and "list_all is_digit (zfill (py_str (v * v)) (2 * nd))"
    and "digits_val (zfill (py_str (v * v)) (2 * nd)) = nat (v * v)"
proof -
  let ?n = "nat (v * v)"
  let ?k = "nat nd"
  have sq: "\<bar>v\<bar> * \<bar>v\<bar> = v * v" by (rule abs_mult_self_eq)
  have pw: "(10::int) ^ ?k * 10 ^ ?k = 10 ^ (2 * ?k)"
    by (simp only: power_add[symmetric] mult_2)
  have "\<bar>v\<bar> * \<bar>v\<bar> < 10 ^ ?k * 10 ^ ?k"
    using assms(2) by (intro mult_strict_mono) auto
  then have vv: "v * v < 10 ^ (2 * ?k)" by (simp only: sq pw)
  have "int ?n = v * v" by simp
  with vv have "int ?n < int (10 ^ (2 * ?k))" by simp
  then have lt: "?n < 10 ^ (2 * ?k)" by (simp only: of_nat_less_iff)
  have "0 < 2 * ?k" using assms(1) by simp
  from nat_digits_length_le[OF this lt] have len: "length (nat_digits ?n) \<le> 2 * ?k" .
  have str: "py_str (v * v) = nat_digits ?n" by (simp add: py_str_nonneg)
  have w: "nat (2 * nd - int (length (nat_digits ?n))) = 2 * ?k - length (nat_digits ?n)"
    using assms(1) by simp
  show "length (zfill (py_str (v * v)) (2 * nd)) = 2 * nat nd"
    unfolding str zfill_digits w using len by simp
  show "list_all is_digit (zfill (py_str (v * v)) (2 * nd))"
    unfolding str zfill_digits using nat_digits_all[of ?n]
    by (auto simp: list_all_iff is_digit_zero)
  show "digits_val (zfill (py_str (v * v)) (2 * nd)) = nat (v * v)"
    unfolding str zfill_digits by (simp add: digits_val_append digits_val_zeros nat_digits_val)
qed

lemma middle_digits:
  assumes "list_all is_digit s" "length s = 2 * k" "even k"
  shows "digits_val (take k (drop (k div 2) s)) = (digits_val s div 10 ^ (k div 2)) mod 10 ^ k"
    and "length (drop (k div 2 + k) s) = k div 2"
    and "list_all is_digit (take k (drop (k div 2) s))"
    and "length (take k (drop (k div 2) s)) = k"
proof -
  let ?h = "k div 2"
  let ?A = "take ?h s" and ?B = "take k (drop ?h s)" and ?C = "drop (?h + k) s"
  from assms(3) have k: "k = 2 * ?h" by auto
  have s: "s = ?A @ ?B @ ?C"
    by (metis append_take_drop_id drop_drop add.commute)
  show lenC: "length ?C = ?h" using assms(2) k by simp
  show lenB: "length ?B = k" using assms(2) k by simp
  have digB: "list_all is_digit ?B" and digC: "list_all is_digit ?C"
    using assms(1) by (auto simp: list_all_iff dest: in_set_takeD in_set_dropD)
  show "list_all is_digit ?B" by (rule digB)
  have bB: "digits_val ?B < 10 ^ k" using digits_val_bound[OF digB] lenB by simp
  have bC: "digits_val ?C < 10 ^ ?h" using digits_val_bound[OF digC] lenC by simp
  have "digits_val s = digits_val (?A @ ?B) * 10 ^ ?h + digits_val ?C"
    using digits_val_append[of "?A @ ?B" ?C] s lenC by simp
  then have "digits_val s div 10 ^ ?h = digits_val (?A @ ?B)"
    using bC by simp
  also have "\<dots> = digits_val ?A * 10 ^ k + digits_val ?B"
    using digits_val_append[of ?A ?B] lenB by simp
  finally have "(digits_val s div 10 ^ ?h) mod 10 ^ k = digits_val ?B"
    using bB by simp
  then show "digits_val ?B = (digits_val s div 10 ^ ?h) mod 10 ^ k" by simp
qed

lemma py_slice_middle:
  assumes "0 < nd" "length s = 2 * nat nd"
  shows "py_slice s (nd div 2) (3 * nd div 2) = take (nat nd) (drop (nat nd div 2) s)"
proof -
  have n: "int (length s) = 2 * nd" using assms by simp
  have a: "nat (nd div 2) = nat nd div 2" using assms(1) by (simp add: nat_div_distrib)
  have "3 * nd div 2 - nd div 2 = nd" by presburger
  then show ?thesis
    using assms(1) by (simp add: py_slice_def Let_def n a min_def)
qed

lemma py_int_digits:
  assumes "s \<noteq> []" "list_all is_digit s"
  shows "py_int s = Inr (int (digits_val s))"
proof (cases s)
  case Nil
  with assms(1) show ?thesis by simp
next
  case (Cons c r)
  with assms(2) have "is_digit c" by simp
  then have "c \<noteq> CHR ''-''" "c \<noteq> CHR ''+''" by (rule is_digit_props)+
  with Cons assms(2) show ?thesis by (simp add: py_int_def)
qed


lemma ms_next_step:
  assumes v: "ms_state g ''val'' = Some v" and nd: "ms_state g ''ndigits'' = Some nd"
    and wf: "0 < nd" "even nd" "\<bar>v\<bar> < 10 ^ nat nd"
  shows "length (zfill (py_str (v * v)) (2 * nd)) = 2 * nat nd"
    and "length (drop (nat nd div 2 + nat nd) (zfill (py_str (v * v)) (2 * nd))) = nat nd div 2"
    and "py_int (take (nat nd) (drop (nat nd div 2) (zfill (py_str (v * v)) (2 * nd))))
           = Inr ((v * v) div 10 ^ (nat nd div 2) mod 10 ^ nat nd)"
    and "ms_next g =
           (if (v * v) div 10 ^ (nat nd div 2) mod 10 ^ nat nd \<in> ms_seen_numbers g
            then StopIteration
                   (g\<lparr>ms_state := (ms_state g)(''val'' \<mapsto> (v * v) div 10 ^ (nat nd div 2) mod 10 ^ nat nd)\<rparr>)
            else Emit ((v * v) div 10 ^ (nat nd div 2) mod 10 ^ nat nd)
                   (g\<lparr>ms_state := (ms_state g)(''val'' \<mapsto> (v * v) div 10 ^ (nat nd div 2) mod 10 ^ nat nd),
                      ms_seen_numbers := insert ((v * v) div 10 ^ (nat nd div 2) mod 10 ^ nat nd)
                                           (ms_seen_numbers g)\<rparr>))"
proof -
  let ?s = "zfill (py_str (v * v)) (2 * nd)"
  let ?k = "nat nd"
  let ?B = "take ?k (drop (?k div 2) ?s)"
  let ?w = "(v * v) div 10 ^ (?k div 2) mod 10 ^ ?k"
  note pad = square_padded[OF wf(1) wf(3)]
  have ek: "even ?k" using wf(1,2) by (simp add: even_nat_iff)
  note mid = middle_digits[OF pad(2) pad(1) ek]
  show "length ?s = 2 * ?k" by (rule pad(1))
  show "length (drop (?k div 2 + ?k) ?s) = ?k div 2" by (rule mid(2))
  have Bne: "?B \<noteq> []" using mid(4) wf(1) by auto
  have "int (digits_val ?B) = int (nat (v * v) div 10 ^ (?k div 2) mod 10 ^ ?k)"
    using mid(1) pad(3) by simp
  also have "\<dots> = ?w" by (simp add: zdiv_int zmod_int)
  finally have val: "int (digits_val ?B) = ?w" .
  show B: "py_int ?B = Inr ?w"
    using py_int_digits[OF Bne mid(3)] val by simp
  have sl: "py_slice ?s (nd div 2) (3 * nd div 2) = ?B"
    by (rule py_slice_middle[OF wf(1) pad(1)])
  show "ms_next g =
           (if ?w \<in> ms_seen_numbers g
            then StopIteration (g\<lparr>ms_state := (ms_state g)(''val'' \<mapsto> ?w)\<rparr>)
            else Emit ?w
                   (g\<lparr>ms_state := (ms_state g)(''val'' \<mapsto> ?w),
                      ms_seen_numbers := insert ?w (ms_seen_numbers g)\<rparr>))"
    unfolding ms_next_def using v nd by (simp add: Let_def sl B)
qed

lemma ms_wf_cases:
  "ms_wf g \<longleftrightarrow> (\<exists>v nd. ms_state g ''val'' = Some v \<and> ms_state g ''ndigits'' = Some nd \<and>
                      0 < nd \<and> even nd \<and> \<bar>v\<bar> < 10 ^ nat nd)"
  by (auto simp: ms_wf_def split: option.splits)

lemma ms_wf_next:
  assumes "ms_wf g" "ms_next g = Emit w g'"
  shows "ms_wf g' \<and> ms_seen_numbers g' = insert w (ms_seen_numbers g)"
proof -
  from assms(1) obtain v nd where h: "ms_state g ''val'' = Some v"
      "ms_state g ''ndigits'' = Some nd" "0 < nd" "even nd" "\<bar>v\<bar> < 10 ^ nat nd"
    by (auto simp: ms_wf_cases)
  let ?w = "(v * v) div 10 ^ (nat nd div 2) mod 10 ^ nat nd"
  from ms_next_step(4)[OF h] assms(2)
  have e: "w = ?w" "g' = g\<lparr>ms_state := (ms_state g)(''val'' \<mapsto> ?w),
                      ms_seen_numbers := insert ?w (ms_seen_numbers g)\<rparr>"
    by (auto split: if_splits)
  have "0 \<le> ?w" "?w < 10 ^ nat nd" by simp_all
  then have "\<bar>?w\<bar> < 10 ^ nat nd" by simp
  with e h show ?thesis by (simp add: ms_wf_def)
qed

lemma ms_wf_iterate:
  "ms_wf g0 \<Longrightarrow> iterate ms_next n g0 = (vs, Unfinished, g) \<Longrightarrow>
   ms_wf g \<and> ms_seen_numbers g = ms_seen_numbers g0 \<union> set vs"
proof (induction n arbitrary: g0 vs)
  case 0
  then show ?case by simp
next
  case (Suc n)
  show ?case
  proof (cases "ms_next g0")
    case (Emit w g1)
    obtain ws e t where r: "iterate ms_next n g1 = (ws, e, t)"
      by (cases "iterate ms_next n g1")
    with Suc.prems(2) Emit have eq: "vs = w # ws" "e = Unfinished" "t = g" by simp_all
    from ms_wf_next[OF Suc.prems(1) Emit]
    have g1: "ms_wf g1" "ms_seen_numbers g1 = insert w (ms_seen_numbers g0)" by simp_all
    from Suc.IH[OF g1(1), of ws] r eq
    have "ms_wf g \<and> ms_seen_numbers g = ms_seen_numbers g1 \<union> set ws" by simp
    with g1(2) eq(1) show ?thesis by auto
  next
    case (StopIteration g1)
    with Suc.prems(2) show ?thesis by simp
  next
    case (Raise e g1)
    with Suc.prems(2) show ?thesis by simp
  qed
qed

lemma py_int_py_str: "py_int (py_str s) = Inr s"
proof (cases "s < 0")
  case True
  then show ?thesis
    using nat_digits_ne[of "nat (- s)"] nat_digits_all[of "nat (- s)"]
    by (simp add: py_str_def py_int_def nat_digits_val)
next
  case False
  then show ?thesis
    using py_int_digits[OF nat_digits_ne nat_digits_all, of "nat s"]
    by (simp add: py_str_def nat_digits_val)
qed

lemma py_str_bound: "\<bar>s\<bar> < 10 ^ length (py_str s)"
proof (cases "s < 0")
  case True
  have "int (nat (- s)) < int (10 ^ length (nat_digits (nat (- s))))"
    using nat_digits_bound[of "nat (- s)"] by (simp only: of_nat_less_iff)
  with True have "\<bar>s\<bar> < 10 ^ length (nat_digits (nat (- s)))" by simp
  also have "\<dots> \<le> 10 ^ length (py_str s)"
    using True by (simp add: py_str_def)
  finally show ?thesis .
next
  case False
  have "int (nat s) < int (10 ^ length (nat_digits (nat s)))"
    using nat_digits_bound[of "nat s"] by (simp only: of_nat_less_iff)
  with False show ?thesis by (simp add: py_str_def)
qed

lemma MiddleSquare_init_wf:
  assumes "MiddleSquare_init (PyInt s) = Inr g"
  shows "ms_wf g \<and> ms_seen_numbers g = {} \<and> ms_state g ''val'' = Some s \<and>
         ms_state g ''ndigits'' = Some (int (length (py_str s)))"
proof -
  from assms have ev: "even (length (py_str s))"
    and g: "g = \<lparr> ms_seed = s,
              ms_state = [''val'' \<mapsto> s, ''ndigits'' \<mapsto> int (length (py_str s))],
              ms_seen_numbers = {} \<rparr>"
    by (auto simp: MiddleSquare_init_def Let_def py_int_py_str split: if_splits)
  have "py_str s \<noteq> []" using nat_digits_ne by (simp add: py_str_def)
  then have pos: "0 < length (py_str s)" by simp
  show ?thesis using ev pos py_str_bound[of s] by (simp add: g ms_wf_def)
qed


lemma ms_ex_reached:
  "MiddleSquare_init (PyInt 12) = Inr ms_new \<and>
   iterate ms_next 1 ms_new = ([14], Unfinished, ms_ex)"
proof -
  have s12: "py_str 12 = ''12''" by code_simp
  have i12: "py_int ''12'' = Inr 12" by code_simp
  have a: "MiddleSquare_init (PyInt 12) = Inr ms_new"
    by (simp add: MiddleSquare_init_def s12 i12 ms_new_def)
  have wf: "ms_wf ms_new" by (simp add: ms_wf_def ms_new_def)
  have "ms_next ms_new = Emit 14 ms_ex"
    using ms_next_step(4)[of ms_new 12 2]
    by (simp add: ms_new_def ms_ex_def fun_upd_twist)
  then have "iterate ms_next 1 ms_new = ([14], Unfinished, ms_ex)" by simp
  with a show ?thesis by simp
qed

text \<open>
  C3, amended.  Take an object whose value has at most \<open>ndigits\<close> digits, \<open>ndigits\<close> being
  positive and even (the constructor gives such an object), and advance it \<open>n\<close> times,
  getting the values \<open>vs\<close>.  At the next advance the square of the current value, padded
  with zeros, has exactly \<open>2 * ndigits\<close> characters; the slice taken has \<open>ndigits\<close>
  characters with \<open>ndigits / 2\<close> characters on either side, and reads as the number
  \<open>(v * v) div 10 ^ (ndigits / 2) mod 10 ^ ndigits\<close>; that number becomes the current
  value; \<open>StopIteration\<close> is raised exactly when it is among the numbers seen before the
  run or returned in it, and otherwise it is recorded and returned.
\<close>

theorem ms_next_middle_square:
  assumes "ms_wf g0" and "iterate ms_next n g0 = (vs, Unfinished, g)"
  shows "\<exists>v nd. ms_state g ''val'' = Some v \<and> ms_state g ''ndigits'' = Some nd \<and>
           length (zfill (py_str (v * v)) (2 * nd)) = 2 * nat nd \<and>
           length (drop (nat nd div 2 + nat nd) (zfill (py_str (v * v)) (2 * nd))) = nat nd div 2 \<and>
           py_int (take (nat nd) (drop (nat nd div 2) (zfill (py_str (v * v)) (2 * nd))))
             = Inr ((v * v) div 10 ^ (nat nd div 2) mod 10 ^ nat nd) \<and>
           ms_next g =
             (if (v * v) div 10 ^ (nat nd div 2) mod 10 ^ nat nd \<in> ms_seen_numbers g0 \<union> set vs
              then StopIteration
                     (g\<lparr>ms_state := (ms_state g)(''val'' \<mapsto> (v * v) div 10 ^ (nat nd div 2) mod 10 ^ nat nd)\<rparr>)
              else Emit ((v * v) div 10 ^ (nat nd div 2) mod 10 ^ nat nd)
                     (g\<lparr>ms_state := (ms_state g)(''val'' \<mapsto> (v * v) div 10 ^ (nat nd div 2) mod 10 ^ nat nd),
                        ms_seen_numbers := insert ((v * v) div 10 ^ (nat nd div 2) mod 10 ^ nat nd)
                                             (ms_seen_numbers g)\<rparr>))"
proof -
  from ms_wf_iterate[OF assms] have wf: "ms_wf g"
    and seen: "ms_seen_numbers g = ms_seen_numbers g0 \<union> set vs" by simp_all
  from wf obtain v nd where h: "ms_state g ''val'' = Some v"
      "ms_state g ''ndigits'' = Some nd" "0 < nd" "even nd" "\<bar>v\<bar> < 10 ^ nat nd"
    by (auto simp: ms_wf_cases)
  note st = ms_next_step[OF h]
  have nx: "ms_next g =
             (if (v * v) div 10 ^ (nat nd div 2) mod 10 ^ nat nd \<in> ms_seen_numbers g0 \<union> set vs
              then StopIteration
                     (g\<lparr>ms_state := (ms_state g)(''val'' \<mapsto> (v * v) div 10 ^ (nat nd div 2) mod 10 ^ nat nd)\<rparr>)
              else Emit ((v * v) div 10 ^ (nat nd div 2) mod 10 ^ nat nd)
                     (g\<lparr>ms_state := (ms_state g)(''val'' \<mapsto> (v * v) div 10 ^ (nat nd div 2) mod 10 ^ nat nd),
                        ms_seen_numbers := insert ((v * v) div 10 ^ (nat nd div 2) mod 10 ^ nat nd)
                                             (ms_seen_numbers g)\<rparr>))"
    by (subst st(4)) (simp only: seen)
  show ?thesis
    by (intro exI[of _ v] exI[of _ nd] conjI h(1) h(2) st(1) st(2) st(3) nx)
qed

theorem ms_next_middle_square_witness:
  "ms_wf ms_new \<and> iterate ms_next 1 ms_new = ([14], Unfinished, ms_ex) \<and>
   zfill (py_str (14 * 14)) (2 * 2) = ''0196'' \<and>
   ms_next ms_ex = Emit 19 (ms_ex\<lparr>ms_state := (ms_state ms_ex)(''val'' \<mapsto> 19),
                                  ms_seen_numbers := {19, 14}\<rparr>)"
proof -
  have wf: "ms_wf ms_new" by (simp add: ms_wf_def ms_new_def)
  have run: "iterate ms_next 1 ms_new = ([14], Unfinished, ms_ex)"
    using ms_ex_reached by simp
  have z: "zfill (py_str (14 * 14)) (2 * 2) = ''0196''" by code_simp
  have seen: "ms_seen_numbers ms_new = {}" by (simp add: ms_new_def)
  from ms_next_middle_square [OF wf run]
  obtain v nd where h: "ms_state ms_ex ''val'' = Some v" "ms_state ms_ex ''ndigits'' = Some nd"
    and nx: "ms_next ms_ex =
             (if (v * v) div 10 ^ (nat nd div 2) mod 10 ^ nat nd \<in> ms_seen_numbers ms_new \<union> set [14]
              then StopIteration
                     (ms_ex\<lparr>ms_state := (ms_state ms_ex)(''val'' \<mapsto> (v * v) div 10 ^ (nat nd div 2) mod 10 ^ nat nd)\<rparr>)
              else Emit ((v * v) div 10 ^ (nat nd div 2) mod 10 ^ nat nd)
                     (ms_ex\<lparr>ms_state := (ms_state ms_ex)(''val'' \<mapsto> (v * v) div 10 ^ (nat nd div 2) mod 10 ^ nat nd),
                        ms_seen_numbers := insert ((v * v) div 10 ^ (nat nd div 2) mod 10 ^ nat nd)
                                             (ms_seen_numbers ms_ex)\<rparr>))"
    by blast
  from h have v: "v = 14" and nd: "nd = 2" by (simp_all add: ms_ex_def)
  have "ms_next ms_ex = Emit 19 (ms_ex\<lparr>ms_state := (ms_state ms_ex)(''val'' \<mapsto> 19),
                                  ms_seen_numbers := {19, 14}\<rparr>)"
    using nx unfolding v nd seen by (simp add: ms_ex_def)
  with wf run z show ?thesis by simp
qed

text \<open>
  C3, as stated, fails after \<open>set_state\<close> has installed a value with more digits than
  \<open>ndigits\<close>: \<open>zfill\<close> pads and never cuts, so the square of 12345 stays nine characters
  long for \<open>ndigits = 2\<close>, and the slice \<open>[1:3]\<close> of it, 52, is returned.
\<close>

theorem ms_next_padding_counterexample:
  "ms_set_state ms_ex [''val'' \<mapsto> 12345, ''ndigits'' \<mapsto> 2] = Done ms_wide \<and>
   zfill (py_str (12345 * 12345)) (2 * 2) = ''152399025'' \<and>
   length (zfill (py_str (12345 * 12345)) (2 * 2)) = 9 \<and>
   ms_next ms_wide = Emit 52 (ms_wide\<lparr>ms_state := (ms_state ms_wide)(''val'' \<mapsto> 52),
                                    ms_seen_numbers := {52, 14}\<rparr>)"
proof -
  have a: "ms_set_state ms_ex [''val'' \<mapsto> 12345, ''ndigits'' \<mapsto> 2] = Done ms_wide"
    by (simp add: ms_set_state_def ms_ex_def ms_wide_def)
  have b1: "py_str (12345 * 12345) = ''152399025''"
    by (simp add: py_str_def nat_digits.simps digit_char_def)
  have b2: "zfill ''152399025'' (2 * 2) = ''152399025''"
    by (simp add: zfill_def)
  have b3: "py_slice ''152399025'' (2 div 2) (3 * 2 div 2) = ''52''"
    by (simp add: py_slice_def)
  have b4: "py_int ''52'' = Inr 52"
    by (simp add: py_int_def is_digit_def digits_val_def digit_val_def)
  have b5: "ms_next ms_wide =
      Emit 52 (ms_wide\<lparr>ms_state := (ms_state ms_wide)(''val'' \<mapsto> 52),
                       ms_seen_numbers := {52, 14}\<rparr>)"
    using b1 b2 b3 b4 by (simp add: ms_next_def ms_wide_def Let_def)
  from a b1 b2 b5 show ?thesis by simp
qed

end
